theory Spec2Isabelle
  imports Main "HOL-Library.Word" "HOL-Library.AList" "HOL-Library.Log_Nat"
begin

unbundle bit_operations_syntax

section \<open>Fast array replication: data model\<close>

text \<open>
  The embedding follows the fast-array part of the net serialization header
  (\<^verbatim>\<open>FFastArraySerializer\<close> and its helpers). \<^verbatim>\<open>int32\<close> values are 32-bit words: \<open>+\<close>
  wraps around and the comparisons of the source are the signed ones (\<open>word_sless\<close>,
  \<open>word_sle\<close>). Positions in \<^verbatim>\<open>TArray\<close>s and element counts are natural numbers or,
  where the source subtracts counts, integers.

  A \<^verbatim>\<open>TMap<int32, V>\<close> is an association list with distinct keys, in insertion order:
  \<^verbatim>\<open>Add\<close> overwrites the value of a key already present and appends otherwise, \<^verbatim>\<open>Find\<close>
  is a lookup, \<^verbatim>\<open>Num\<close> the length, and an iterator visits the pairs in list order.
\<close>

type_synonym int32 = "32 word"

definition INDEX_NONE :: int32 where
  "INDEX_NONE = - 1"

type_synonym 'v TMap = "(int32 \<times> 'v) list"

definition TMap_Add :: "int32 \<Rightarrow> 'v \<Rightarrow> 'v TMap \<Rightarrow> 'v TMap" where
  "TMap_Add k v m = AList.update k v m"

definition TMap_Find :: "'v TMap \<Rightarrow> int32 \<Rightarrow> 'v option" where
  "TMap_Find m k = map_of m k"

definition TMap_Contains :: "'v TMap \<Rightarrow> int32 \<Rightarrow> bool" where
  "TMap_Contains m k = (TMap_Find m k \<noteq> None)"

definition TMap_Remove :: "int32 \<Rightarrow> 'v TMap \<Rightarrow> 'v TMap" where
  "TMap_Remove k m = AList.delete k m"

definition TMap_Num :: "'v TMap \<Rightarrow> nat" where
  "TMap_Num m = length m"

text \<open>
  \<^verbatim>\<open>FFastArraySerializerItem\<close>: the three bookkeeping fields every replicated record
  carries, and \<open>Payload\<close> for the replicated properties of the derived item type.
\<close>

record 'p FFastArraySerializerItem =
  ReplicationID :: int32
  ReplicationKey :: int32
  MostRecentArrayReplicationKey :: int32
  Payload :: 'p

text \<open>\<^verbatim>\<open>FFastArraySerializerGuidReferences\<close>: the unresolved references of one record.\<close>

record FFastArraySerializerGuidReferences =
  UnmappedGUIDs :: "nat set"
  MappedDynamicGUIDs :: "nat set"
  Buffer :: "int32 list"
  NumBufferBits :: nat

text \<open>
  \<^verbatim>\<open>FFastArraySerializer\<close>: the bookkeeping of the collection. The \<^verbatim>\<open>Items\<close> array itself
  belongs to the derived struct and is passed beside it. The cached counts are \<open>- 1\<close>
  (\<^verbatim>\<open>INDEX_NONE\<close>) when invalid.
\<close>

record FFastArraySerializer =
  ItemMap :: "nat TMap"
  IDCounter :: int32
  ArrayReplicationKey :: int32
  GuidReferencesMap :: "FFastArraySerializerGuidReferences TMap"
  CachedNumItems :: int
  CachedNumItemsToConsiderForWriting :: int

text \<open>\<^verbatim>\<open>FNetFastTArrayBaseState\<close>: the id-to-key map of one observer and its array key.\<close>

record FNetFastTArrayBaseState =
  IDToCLMap :: "int32 TMap"
  BaseState_ArrayReplicationKey :: int32


section \<open>Record identity and dirty tracking\<close>

definition IncrementArrayReplicationKey :: "FFastArraySerializer \<Rightarrow> FFastArraySerializer" where
  "IncrementArrayReplicationKey S =
     (let S1 = S\<lparr>ArrayReplicationKey := ArrayReplicationKey S + 1\<rparr>
      in if ArrayReplicationKey S1 = INDEX_NONE
         then S1\<lparr>ArrayReplicationKey := ArrayReplicationKey S1 + 1\<rparr>
         else S1)"

definition MarkArrayDirty :: "FFastArraySerializer \<Rightarrow> FFastArraySerializer" where
  "MarkArrayDirty S =
     (let S1 = S\<lparr>ItemMap := []\<rparr>;
          S2 = IncrementArrayReplicationKey S1
      in S2\<lparr>CachedNumItems := - 1, CachedNumItemsToConsiderForWriting := - 1\<rparr>)"

text \<open>
  \<^verbatim>\<open>MarkItemDirty\<close>: the id is taken from the pre-incremented counter, and only then is
  the counter moved past \<^verbatim>\<open>INDEX_NONE\<close>.
\<close>

definition MarkItemDirty ::
  "FFastArraySerializer \<Rightarrow> 'p FFastArraySerializerItem
   \<Rightarrow> FFastArraySerializer \<times> 'p FFastArraySerializerItem" where
  "MarkItemDirty S Item =
     (let (S1, Item1) =
            (if ReplicationID Item = INDEX_NONE
             then (let Sa = S\<lparr>IDCounter := IDCounter S + 1\<rparr>;
                       Ia = Item\<lparr>ReplicationID := IDCounter Sa\<rparr>;
                       Sb = (if IDCounter Sa = INDEX_NONE
                             then Sa\<lparr>IDCounter := IDCounter Sa + 1\<rparr> else Sa)
                   in (Sb, Ia))
             else (S, Item));
          Item2 = Item1\<lparr>ReplicationKey := ReplicationKey Item1 + 1\<rparr>
      in (MarkArrayDirty S1, Item2))"


section \<open>Base states\<close>

text \<open>
  \<^verbatim>\<open>FNetFastTArrayBaseState::IsStateEqual\<close>: the loop runs over the pairs of this state's
  map only and returns false at the first pair the other map lacks or maps differently.
\<close>

definition IsStateEqual :: "FNetFastTArrayBaseState \<Rightarrow> FNetFastTArrayBaseState \<Rightarrow> bool" where
  "IsStateEqual This Other =
     list_all (\<lambda>(k, v). TMap_Find (IDToCLMap Other) k = Some v) (IDToCLMap This)"


section \<open>Archives\<close>

text \<open>
  Modelled from the spec: the byte-stream reader and writer are collaborators of the
  core (bit-level integer serialization with error-flagging on malformed input); their
  classes are not part of the sources at hand. A stream is the list of the 32-bit
  values written with \<^verbatim>\<open><<\<close>. Reading past the end sets the error flag and yields 0,
  and so does every read of a reader already in error.
\<close>

record FBitReader =
  Data :: "int32 list"
  IsError :: bool

definition Read_int32 :: "FBitReader \<Rightarrow> int32 \<times> FBitReader" where
  "Read_int32 R =
     (if IsError R then (0, R)
      else case Data R of
             [] \<Rightarrow> (0, R\<lparr>IsError := True\<rparr>)
           | x # xs \<Rightarrow> (x, R\<lparr>Data := xs\<rparr>))"

definition SetError :: "FBitReader \<Rightarrow> FBitReader" where
  "SetError R = R\<lparr>IsError := True\<rparr>"

type_synonym FBitWriter = "int32 list"

definition Write_int32 :: "int32 \<Rightarrow> FBitWriter \<Rightarrow> FBitWriter" where
  "Write_int32 x W = W @ [x]"

text \<open>
  The configured limits: in the source two static integers bound to console variables,
  defined outside the sources at hand, so they are parameters here.
\<close>

record FastArrayLimits =
  MaxNumberOfAllowedChangesPerUpdate :: int32
  MaxNumberOfAllowedDeletionsPerUpdate :: int32

text \<open>
  \<^verbatim>\<open>FFastArraySerializerHeader\<close>. When reading, \<open>DeletedIndices\<close> holds positions in
  \<^verbatim>\<open>Items\<close> (type \<open>nat\<close>); when writing, replication ids (type \<open>int32\<close>).
\<close>

record 'd FFastArraySerializerHeader =
  Header_ArrayReplicationKey :: int32
  BaseReplicationKey :: int32
  NumChanged :: int32
  DeletedIndices :: "'d list"

text \<open>
  The flags and state pointers of \<^verbatim>\<open>FNetDeltaSerializeInfo\<close> that the fast-array code
  reads or sets. Base states live in a store (a list, an address being a position), so
  that sharing a state and creating one can be told apart.
\<close>

record FNetDeltaSerializeInfo =
  bInternalAck :: bool
  bIsWritingOnClient :: bool
  bGuidListsChanged :: bool
  bOutHasMoreUnmapped :: bool
  OldState :: "nat option"
  NewState :: "nat option"

text \<open>
  The lifecycle callbacks of the item type and of the serializer are empty in the base
  structs and overridden by game code. Each call is recorded as an event, together with
  the two physical steps that close a receive: the swap-removals and the clearing of
  \<^verbatim>\<open>ItemMap\<close>.
\<close>

datatype FastArrayEvent =
    Item_PreReplicatedRemove nat
  | Array_PreReplicatedRemove "nat list" int
  | Item_PostReplicatedAdd nat
  | Array_PostReplicatedAdd "nat list" int
  | Item_PostReplicatedChange nat
  | Array_PostReplicatedChange "nat list" int
  | Items_RemoveAtSwap nat
  | ItemMap_Empty

text \<open>What a receive works on: the array, its serializer, the parameters, the events so far.\<close>

record 'p FastArray =
  Items :: "'p FFastArraySerializerItem list"
  ArraySerializer :: FFastArraySerializer
  Parms :: FNetDeltaSerializeInfo
  Events :: "FastArrayEvent list"


section \<open>Reconciliation and lifecycle dispatch\<close>

text \<open>
  The first loop of \<^verbatim>\<open>PostReceiveCleanup\<close>: every position whose record has its most
  recent array key strictly between the base key and the array key of the header is
  appended to the deleted indices, unless it is among them already.
\<close>

fun ImplicitDeletes ::
  "int32 \<Rightarrow> int32 \<Rightarrow> 'p FFastArraySerializerItem list \<Rightarrow> nat \<Rightarrow> nat list \<Rightarrow> nat list" where
  "ImplicitDeletes ark brk [] idx D = D"
| "ImplicitDeletes ark brk (Item # rest) idx D =
     ImplicitDeletes ark brk rest (Suc idx)
       (if word_sless (MostRecentArrayReplicationKey Item) ark \<and>
           word_sless brk (MostRecentArrayReplicationKey Item)
        then (if idx \<notin> set D then D @ [idx] else D)
        else D)"

text \<open>
  The removal callbacks: for each deleted index that is valid, the tracked references
  of the record are dropped and its \<^verbatim>\<open>PreReplicatedRemove\<close> is called.
\<close>

fun PreRemoveLoop ::
  "nat list \<Rightarrow> 'p FFastArraySerializerItem list
   \<Rightarrow> FFastArraySerializerGuidReferences TMap \<times> bool \<times> FastArrayEvent list
   \<Rightarrow> FFastArraySerializerGuidReferences TMap \<times> bool \<times> FastArrayEvent list" where
  "PreRemoveLoop [] xs (G, c, ev) = (G, c, ev)"
| "PreRemoveLoop (idx # D) xs (G, c, ev) =
     (if idx < length xs
      then PreRemoveLoop D xs
             (TMap_Remove (ReplicationID (xs ! idx)) G,
              (if TMap_Contains G (ReplicationID (xs ! idx)) then True else c),
              ev @ [Item_PreReplicatedRemove idx])
      else PreRemoveLoop D xs (G, c, ev))"

text \<open>\<^verbatim>\<open>TArray::RemoveAtSwap\<close>: the last element takes the place of the removed one.\<close>

definition RemoveAtSwap :: "nat \<Rightarrow> 'a list \<Rightarrow> 'a list" where
  "RemoveAtSwap i xs = butlast (xs[i := last xs])"

text \<open>
  The removal loop, given the indices in the order it visits them (the sorted indices
  from the last to the first): an index is removed when it is valid at that moment.
\<close>

fun RemoveDeletedItems :: "nat list \<Rightarrow> 'a list \<Rightarrow> 'a list \<times> FastArrayEvent list" where
  "RemoveDeletedItems [] xs = (xs, [])"
| "RemoveDeletedItems (d # ds) xs =
     (if d < length xs
      then (let (ys, ev) = RemoveDeletedItems ds (RemoveAtSwap d xs)
            in (ys, Items_RemoveAtSwap d # ev))
      else RemoveDeletedItems ds xs)"

text \<open>
  \<^verbatim>\<open>PostReceiveCleanup\<close>, its first block (the search for implicit deletes, skipped
  when \<^verbatim>\<open>bInternalAck\<close> is set) as a function of its own.
  \<^verbatim>\<open>Items[idx]\<close> in the add and change loops is a checked access:
  the result is \<open>None\<close> when an index is out of range. The guid map is the serializer's
  \<^verbatim>\<open>GuidReferencesMap\<close>, as in the call of the standard path.
\<close>

definition ImplicitDeleteDetection ::
  "nat FFastArraySerializerHeader \<Rightarrow> 'p FastArray \<Rightarrow> nat list" where
  "ImplicitDeleteDetection Header A =
     (if \<not> bInternalAck (Parms A)
      then ImplicitDeletes (Header_ArrayReplicationKey Header)
             (BaseReplicationKey Header) (Items A) 0 (DeletedIndices Header)
      else DeletedIndices Header)"

definition PostReceiveCleanup ::
  "nat FFastArraySerializerHeader \<Rightarrow> nat list \<Rightarrow> nat list \<Rightarrow> 'p FastArray
   \<Rightarrow> (nat FFastArraySerializerHeader \<times> 'p FastArray) option" where
  "PostReceiveCleanup Header ChangedIndices AddedIndices A =
     (let D = ImplicitDeleteDetection Header A;
          S1 = (if 0 < length D \<or> word_sless 0 (NumChanged Header)
                then IncrementArrayReplicationKey (ArraySerializer A)
                else ArraySerializer A);
          PreRemoveSize = int (length (Items A));
          FinalSize = PreRemoveSize - int (length D);
          (G, c, ev1) = PreRemoveLoop D (Items A)
                          (GuidReferencesMap S1, bGuidListsChanged (Parms A), Events A);
          ev2 = ev1 @ [Array_PreReplicatedRemove D FinalSize]
      in if \<exists>idx \<in> set AddedIndices. \<not> idx < length (Items A) then None
         else
           let ev3 = ev2 @ map Item_PostReplicatedAdd AddedIndices
                         @ [Array_PostReplicatedAdd AddedIndices FinalSize]
           in if \<exists>idx \<in> set ChangedIndices. \<not> idx < length (Items A) then None
              else
                let ev4 = ev3 @ map Item_PostReplicatedChange ChangedIndices
                              @ [Array_PostReplicatedChange ChangedIndices FinalSize];
                    S2 = S1\<lparr>GuidReferencesMap := G\<rparr>;
                    P2 = (Parms A)\<lparr>bGuidListsChanged := c\<rparr>
                in if 0 < length D
                   then (let Ds = sort D;
                             (xs, ev5) = RemoveDeletedItems (rev Ds) (Items A)
                         in Some (Header\<lparr>DeletedIndices := Ds\<rparr>,
                                  \<lparr>Items = xs, ArraySerializer = S2\<lparr>ItemMap := []\<rparr>,
                                   Parms = P2, Events = ev4 @ ev5 @ [ItemMap_Empty]\<rparr>))
                   else Some (Header\<lparr>DeletedIndices := D\<rparr>,
                              \<lparr>Items = Items A, ArraySerializer = S2,
                               Parms = P2, Events = ev4\<rparr>))"


section \<open>Delta state manager: sending\<close>

definition ShouldWriteFastArrayItem :: "'p FFastArraySerializerItem \<Rightarrow> bool \<Rightarrow> bool" where
  "ShouldWriteFastArrayItem Item bWritingOnClient =
     (\<not> bWritingOnClient \<or> ReplicationID Item \<noteq> INDEX_NONE)"

definition CalcNumItemsForConsideration :: "'p FastArray \<Rightarrow> int" where
  "CalcNumItemsForConsideration A =
     int (length (filter (\<lambda>Item. ShouldWriteFastArrayItem Item (bIsWritingOnClient (Parms A)))
                    (Items A)))"

text \<open>
  \<^verbatim>\<open>ConditionalRebuildItemMap\<close>: \<open>bUpdateUnmappedObjects\<close> and \<open>bWriter\<close> (whether
  \<^verbatim>\<open>Parms.Writer\<close> is set) are the two parameters it looks at.
\<close>

fun RebuildItemMap ::
  "bool \<Rightarrow> 'p FFastArraySerializerItem list \<Rightarrow> nat \<Rightarrow> nat TMap \<Rightarrow> nat TMap" where
  "RebuildItemMap bWriter [] i m = m"
| "RebuildItemMap bWriter (Item # rest) i m =
     (if ReplicationID Item = INDEX_NONE \<and> \<not> bWriter
      then RebuildItemMap bWriter rest (Suc i) m
      else RebuildItemMap bWriter rest (Suc i) (TMap_Add (ReplicationID Item) i m))"

definition ConditionalRebuildItemMap :: "bool \<Rightarrow> bool \<Rightarrow> 'p FastArray \<Rightarrow> 'p FastArray" where
  "ConditionalRebuildItemMap bUpdateUnmappedObjects bWriter A =
     (if (bUpdateUnmappedObjects \<or> \<not> bWriter) \<and>
         TMap_Num (ItemMap (ArraySerializer A)) \<noteq> length (Items A)
      then A\<lparr>ArraySerializer :=
               (ArraySerializer A)\<lparr>ItemMap := RebuildItemMap bWriter (Items A) 0 []\<rparr>\<rparr>
      else A)"

text \<open>
  \<^verbatim>\<open>ConditionalCreateNewDeltaState\<close>, on the store of base states: sharing the old state
  hands out its address, creating one appends to the store. The result is false when the
  keys are equal and serialization can be skipped.
\<close>

definition ConditionalCreateNewDeltaState ::
  "int32 TMap \<Rightarrow> int32 \<Rightarrow> FNetFastTArrayBaseState list \<Rightarrow> 'p FastArray
   \<Rightarrow> bool \<times> FNetFastTArrayBaseState list \<times> 'p FastArray" where
  "ConditionalCreateNewDeltaState OldIDToKeyMap BaseKey States A =
     (if ArrayReplicationKey (ArraySerializer A) = BaseKey
      then (let S = ArraySerializer A;
                S1 = (if CachedNumItems S = - 1 \<or> CachedNumItems S \<noteq> int (length (Items A)) \<or>
                         CachedNumItemsToConsiderForWriting S = - 1
                      then S\<lparr>CachedNumItems := int (length (Items A)),
                             CachedNumItemsToConsiderForWriting :=
                               CalcNumItemsForConsideration A\<rparr>
                      else S)
            in case OldState (Parms A) of
                 Some old \<Rightarrow>
                   (False, States,
                    A\<lparr>ArraySerializer := S1, Parms := (Parms A)\<lparr>NewState := Some old\<rparr>\<rparr>)
               | None \<Rightarrow>
                   (False,
                    States @ [\<lparr>IDToCLMap = [],
                               BaseState_ArrayReplicationKey = ArrayReplicationKey S1\<rparr>],
                    A\<lparr>ArraySerializer := S1,
                      Parms := (Parms A)\<lparr>NewState := Some (length States)\<rparr>\<rparr>))
      else (True, States, A))"

text \<open>
  The first loop of \<^verbatim>\<open>BuildChangedAndDeletedBuffers\<close>, over the records not yet visited
  (at positions from \<open>i\<close> on). Its state: the serializer, the records already visited
  (as \<^verbatim>\<open>MarkItemDirty\<close> left them), the new id-to-key map, the changed elements (position
  and id) and the delete count.
\<close>

fun BuildChanged ::
  "bool \<Rightarrow> int32 TMap option \<Rightarrow> 'p FFastArraySerializerItem list \<Rightarrow> nat
   \<Rightarrow> FFastArraySerializer \<times> 'p FFastArraySerializerItem list \<times> int32 TMap
       \<times> (nat \<times> int32) list \<times> int
   \<Rightarrow> FFastArraySerializer \<times> 'p FFastArraySerializerItem list \<times> int32 TMap
       \<times> (nat \<times> int32) list \<times> int" where
  "BuildChanged bClient Old [] i st = st"
| "BuildChanged bClient Old (Item # rest) i (S, done, NewMap, Changed, DeleteCount) =
     (if \<not> ShouldWriteFastArrayItem Item bClient
      then BuildChanged bClient Old rest (Suc i) (S, done @ [Item], NewMap, Changed, DeleteCount)
      else
        let (S1, Item1) = (if ReplicationID Item = INDEX_NONE then MarkItemDirty S Item
                           else (S, Item));
            NewMap1 = TMap_Add (ReplicationID Item1) (ReplicationKey Item1) NewMap;
            OldValuePtr = (case Old of None \<Rightarrow> None
                           | Some m \<Rightarrow> TMap_Find m (ReplicationID Item1))
        in case OldValuePtr of
             Some v \<Rightarrow>
               (if v = ReplicationKey Item1
                then BuildChanged bClient Old rest (Suc i)
                       (S1, done @ [Item1], NewMap1, Changed, DeleteCount)
                else BuildChanged bClient Old rest (Suc i)
                       (S1, done @ [Item1], NewMap1,
                        Changed @ [(i, ReplicationID Item1)], DeleteCount))
           | None \<Rightarrow>
               BuildChanged bClient Old rest (Suc i)
                 (S1, done @ [Item1], NewMap1,
                  Changed @ [(i, ReplicationID Item1)], DeleteCount + 1))"

text \<open>
  The second loop, over the pairs of the old map: an id the new map lacks is deleted,
  and the loop stops as soon as the decremented delete count is not positive.
\<close>

fun FindDeleted :: "int32 TMap \<Rightarrow> int32 TMap \<Rightarrow> int \<Rightarrow> int32 list \<Rightarrow> int32 list" where
  "FindDeleted [] NewMap DeleteCount Deleted = Deleted"
| "FindDeleted ((k, v) # rest) NewMap DeleteCount Deleted =
     (if \<not> TMap_Contains NewMap k
      then (if DeleteCount - 1 \<le> 0 then Deleted @ [k]
            else FindDeleted rest NewMap (DeleteCount - 1) (Deleted @ [k]))
      else FindDeleted rest NewMap DeleteCount Deleted)"

text \<open>
  \<^verbatim>\<open>BuildChangedAndDeletedBuffers\<close>: the result is the array with its serializer (both
  touched by \<^verbatim>\<open>MarkItemDirty\<close>), the new map, the changed elements, the deleted ids.
\<close>

definition BuildChangedAndDeletedBuffers ::
  "int32 TMap \<Rightarrow> int32 TMap option \<Rightarrow> (nat \<times> int32) list \<Rightarrow> int32 list \<Rightarrow> 'p FastArray
   \<Rightarrow> 'p FastArray \<times> int32 TMap \<times> (nat \<times> int32) list \<times> int32 list" where
  "BuildChangedAndDeletedBuffers NewIDToKeyMap OldIDToKeyMap ChangedElements DeletedElements A =
     (let NumConsideredItems = CalcNumItemsForConsideration A;
          DeleteCount0 = (case OldIDToKeyMap of None \<Rightarrow> 0 | Some m \<Rightarrow> int (TMap_Num m))
                         - NumConsideredItems;
          (S, xs, NewMap, Changed, DeleteCount) =
             BuildChanged (bIsWritingOnClient (Parms A)) OldIDToKeyMap (Items A) 0
               (ArraySerializer A, [], NewIDToKeyMap, ChangedElements, DeleteCount0);
          Deleted = (case OldIDToKeyMap of
                       None \<Rightarrow> DeletedElements
                     | Some m \<Rightarrow> if 0 < DeleteCount
                                 then FindDeleted m NewMap DeleteCount DeletedElements
                                 else DeletedElements)
      in (A\<lparr>Items := xs, ArraySerializer := S\<rparr>, NewMap, Changed, Deleted))"

text \<open>
  \<^verbatim>\<open>WriteDeltaHeader\<close>. The two limits are compared with the counts after these are
  written, and each excess is logged as a warning; the warnings are returned beside the
  writer.
\<close>

datatype FastArrayWarning = NumDeletes_exceeds_max | NumChanged_exceeds_max

definition WriteDeltaHeader ::
  "FastArrayLimits \<Rightarrow> int32 FFastArraySerializerHeader \<Rightarrow> FBitWriter
   \<Rightarrow> FBitWriter \<times> FastArrayWarning list" where
  "WriteDeltaHeader Limits Header W =
     (let W1 = Write_int32 (Header_ArrayReplicationKey Header) W;
          W2 = Write_int32 (BaseReplicationKey Header) W1;
          NumDeletes = (word_of_nat (length (DeletedIndices Header)) :: int32);
          W3 = Write_int32 NumDeletes W2;
          W4 = Write_int32 (NumChanged Header) W3;
          warn = (if word_sless (MaxNumberOfAllowedDeletionsPerUpdate Limits) NumDeletes
                  then [NumDeletes_exceeds_max] else [])
               @ (if word_sless (MaxNumberOfAllowedChangesPerUpdate Limits) (NumChanged Header)
                  then [NumChanged_exceeds_max] else [])
      in (fold Write_int32 (DeletedIndices Header) W4, warn))"

text \<open>
  The changed elements after the header: the id, then the record as the per-record
  encoder (\<^verbatim>\<open>NetSerializeStruct\<close>, a collaborator) writes it.
\<close>

fun WriteChangedElements ::
  "('p \<Rightarrow> FBitWriter \<Rightarrow> FBitWriter) \<Rightarrow> 'p FFastArraySerializerItem list
   \<Rightarrow> (nat \<times> int32) list \<Rightarrow> FBitWriter \<Rightarrow> FBitWriter option" where
  "WriteChangedElements enc xs [] W = Some W"
| "WriteChangedElements enc xs ((idx, ID) # rest) W =
     (if idx < length xs
      then WriteChangedElements enc xs rest (enc (Payload (xs ! idx)) (Write_int32 ID W))
      else None)"

text \<open>
  The writing branch of \<^verbatim>\<open>FastArrayDeltaSerialize\<close> (standard path, none of the guid
  modes requested). \<open>None\<close> stands for a dangling state pointer or an index out of
  range. The result carries the return value, the store of base states, the writer, the
  warnings and the array.
\<close>

definition FastArrayDeltaSerialize_Write ::
  "FastArrayLimits \<Rightarrow> ('p \<Rightarrow> FBitWriter \<Rightarrow> FBitWriter) \<Rightarrow> FNetFastTArrayBaseState list
   \<Rightarrow> FBitWriter \<Rightarrow> 'p FastArray
   \<Rightarrow> (bool \<times> FNetFastTArrayBaseState list \<times> FBitWriter \<times> FastArrayWarning list
        \<times> 'p FastArray) option" where
  "FastArrayDeltaSerialize_Write Limits enc States W A0 =
     (let A = ConditionalRebuildItemMap False True A0
      in if (case OldState (Parms A) of None \<Rightarrow> False | Some old \<Rightarrow> \<not> old < length States)
         then None
         else
           let OldMap = map_option (\<lambda>old. IDToCLMap (States ! old)) (OldState (Parms A));
               BaseKey = (case OldState (Parms A) of None \<Rightarrow> INDEX_NONE
                          | Some old \<Rightarrow> BaseState_ArrayReplicationKey (States ! old));
               (go, States1, A1) =
                  (case OldMap of None \<Rightarrow> (True, States, A)
                   | Some m \<Rightarrow> ConditionalCreateNewDeltaState m BaseKey States A)
           in if \<not> go then Some (False, States1, W, [], A1)
              else
                let new = length States1;
                    A2 = A1\<lparr>Parms := (Parms A1)\<lparr>NewState := Some new\<rparr>\<rparr>;
                    Header = \<lparr>Header_ArrayReplicationKey = ArrayReplicationKey (ArraySerializer A2),
                              BaseReplicationKey = BaseKey, NumChanged = 0,
                              DeletedIndices = []\<rparr>;
                    (A3, NewMap, ChangedElements, Deleted) =
                       BuildChangedAndDeletedBuffers [] OldMap [] (DeletedIndices Header) A2;
                    States2 = States1 @ [\<lparr>IDToCLMap = NewMap,
                                BaseState_ArrayReplicationKey =
                                  ArrayReplicationKey (ArraySerializer A3)\<rparr>];
                    Header1 = Header\<lparr>DeletedIndices := Deleted,
                                NumChanged := word_of_nat (length ChangedElements)\<rparr>;
                    (W1, warn) = WriteDeltaHeader Limits Header1 W
                in case WriteChangedElements enc (Items A3) ChangedElements W1 of
                     None \<Rightarrow> None
                   | Some W2 \<Rightarrow> Some (True, States2, W2, warn, A3))"


section \<open>Delta state manager: receiving\<close>

text \<open>The loop of \<^verbatim>\<open>ReadDeltaHeader\<close> over the deleted ids: ids not found are ignored.\<close>

fun ReadDeletedElements ::
  "nat \<Rightarrow> nat TMap \<Rightarrow> nat list \<times> FBitReader \<Rightarrow> nat list \<times> FBitReader" where
  "ReadDeletedElements 0 m (D, R) = (D, R)"
| "ReadDeletedElements (Suc n) m (D, R) =
     (let (ElementID, R1) = Read_int32 R
      in ReadDeletedElements n m
           ((case TMap_Find m ElementID of None \<Rightarrow> D | Some DeleteIndex \<Rightarrow> D @ [DeleteIndex]),
            R1))"

text \<open>
  \<^verbatim>\<open>ReadDeltaHeader\<close>: false, with the reader in error, as soon as a count exceeds its
  limit. The counts are signed: a negative count passes and reads nothing.
\<close>

definition ReadDeltaHeader ::
  "FastArrayLimits \<Rightarrow> FFastArraySerializer \<Rightarrow> nat FFastArraySerializerHeader \<Rightarrow> FBitReader
   \<Rightarrow> bool \<times> nat FFastArraySerializerHeader \<times> FBitReader" where
  "ReadDeltaHeader Limits S Header R =
     (let (ark, R1) = Read_int32 R;
          (brk, R2) = Read_int32 R1;
          H2 = Header\<lparr>Header_ArrayReplicationKey := ark, BaseReplicationKey := brk\<rparr>;
          (NumDeletes, R3) = Read_int32 R2
      in if word_sless (MaxNumberOfAllowedDeletionsPerUpdate Limits) NumDeletes
         then (False, H2, SetError R3)
         else
           let (nc, R4) = Read_int32 R3;
               H4 = H2\<lparr>NumChanged := nc\<rparr>
           in if word_sless (MaxNumberOfAllowedChangesPerUpdate Limits) nc
              then (False, H4, SetError R4)
              else
                let (D, R5) = ReadDeletedElements (nat (sint NumDeletes)) (ItemMap S)
                                (DeletedIndices H4, R4)
                in (True, H4\<lparr>DeletedIndices := D\<rparr>, R5))"

text \<open>
  The bookkeeping of unresolved references after a record was decoded without error:
  \<open>unm\<close> and \<open>dyn\<close> are the unmapped and the mapped dynamic guids the package map
  tracked during the decoding, \<open>R1\<close> and \<open>R2\<close> the reader before and after it.
\<close>

definition TrackGuids ::
  "int32 \<Rightarrow> FBitReader \<Rightarrow> FBitReader \<Rightarrow> nat set \<Rightarrow> nat set \<Rightarrow> 'p FastArray \<Rightarrow> 'p FastArray" where
  "TrackGuids ElementID R1 R2 unm dyn A =
     (let S = ArraySerializer A; G = GuidReferencesMap S
      in if unm \<noteq> {} \<or> dyn \<noteq> {}
         then (let g0 = (case TMap_Find G ElementID of
                           Some g \<Rightarrow> g
                         | None \<Rightarrow> \<lparr>UnmappedGUIDs = {}, MappedDynamicGUIDs = {},
                                    Buffer = [], NumBufferBits = 0\<rparr>);
                   consumed = take (length (Data R1) - length (Data R2)) (Data R1);
                   g1 = g0\<lparr>UnmappedGUIDs := unm, MappedDynamicGUIDs := dyn,
                          Buffer := consumed, NumBufferBits := 32 * length consumed\<rparr>;
                   P = Parms A;
                   P1 = P\<lparr>bGuidListsChanged :=
                            (UnmappedGUIDs g0 \<noteq> unm \<or> MappedDynamicGUIDs g0 \<noteq> dyn \<or>
                             bGuidListsChanged P),
                          bOutHasMoreUnmapped := (unm \<noteq> {} \<or> bOutHasMoreUnmapped P)\<rparr>
               in A\<lparr>ArraySerializer := S\<lparr>GuidReferencesMap := TMap_Add ElementID g1 G\<rparr>,
                    Parms := P1\<rparr>)
         else A\<lparr>ArraySerializer := S\<lparr>GuidReferencesMap := TMap_Remove ElementID G\<rparr>\<rparr>)"

text \<open>
  One round of the loop of the reading branch over the changed elements, up to the test
  of the reader that ends the round. \<open>dec\<close> is the per-record decoder
  (\<^verbatim>\<open>NetSerializeStruct\<close>, a collaborator): from the replicated properties of the record
  and the reader it gives the new properties, the reader, and the guids tracked. \<open>dflt\<close>
  is the value of the replicated properties in a default-constructed record. The result
  is \<open>None\<close> when \<^verbatim>\<open>ItemMap\<close> points outside the array.
\<close>

definition ReceiveChangedElement ::
  "('p \<Rightarrow> FBitReader \<Rightarrow> 'p \<times> FBitReader \<times> nat set \<times> nat set) \<Rightarrow> 'p \<Rightarrow> int32
   \<Rightarrow> FBitReader \<times> 'p FastArray \<times> nat list \<times> nat list
   \<Rightarrow> (FBitReader \<times> 'p FastArray \<times> nat list \<times> nat list) option" where
  "ReceiveChangedElement dec dflt ark st =
     (case st of (R, A, ChangedIndices, AddedIndices) \<Rightarrow>
      let (ElementID, R1) = Read_int32 R;
          S = ArraySerializer A;
          ElementIndexPtr = TMap_Find (ItemMap S) ElementID;
          ElementIndex = (case ElementIndexPtr of None \<Rightarrow> length (Items A) | Some i \<Rightarrow> i);
          xs = (case ElementIndexPtr of
                  None \<Rightarrow> Items A @ [\<lparr>ReplicationID = ElementID, ReplicationKey = INDEX_NONE,
                                       MostRecentArrayReplicationKey = INDEX_NONE,
                                       Payload = dflt\<rparr>]
                | Some i \<Rightarrow> Items A);
          S1 = (case ElementIndexPtr of
                  None \<Rightarrow> S\<lparr>ItemMap := TMap_Add ElementID ElementIndex (ItemMap S)\<rparr>
                | Some i \<Rightarrow> S);
          AddedIndices1 = (case ElementIndexPtr of None \<Rightarrow> AddedIndices @ [ElementIndex]
                           | Some i \<Rightarrow> AddedIndices);
          ChangedIndices1 = (case ElementIndexPtr of None \<Rightarrow> ChangedIndices
                             | Some i \<Rightarrow> ChangedIndices @ [ElementIndex])
      in if \<not> ElementIndex < length xs then None
         else
           let ThisElement = (xs ! ElementIndex)
                  \<lparr>MostRecentArrayReplicationKey := ark,
                   ReplicationKey := ReplicationKey (xs ! ElementIndex) + 1\<rparr>;
               (p, R2, unm, dyn) = dec (Payload ThisElement) R1;
               A1 = A\<lparr>Items := xs[ElementIndex := ThisElement\<lparr>Payload := p\<rparr>],
                      ArraySerializer := S1\<rparr>;
               A2 = (if \<not> IsError R2 then TrackGuids ElementID R1 R2 unm dyn A1 else A1)
           in Some (R2, A2, ChangedIndices1, AddedIndices1))"

text \<open>
  The loop itself: it ends with false at the first record after which the reader is in
  error.
\<close>

fun ReadChangedElements ::
  "('p \<Rightarrow> FBitReader \<Rightarrow> 'p \<times> FBitReader \<times> nat set \<times> nat set) \<Rightarrow> 'p \<Rightarrow> int32 \<Rightarrow> nat
   \<Rightarrow> FBitReader \<times> 'p FastArray \<times> nat list \<times> nat list
   \<Rightarrow> (bool \<times> FBitReader \<times> 'p FastArray \<times> nat list \<times> nat list) option" where
  "ReadChangedElements dec dflt ark 0 (R, A, ChangedIndices, AddedIndices) =
     Some (True, R, A, ChangedIndices, AddedIndices)"
| "ReadChangedElements dec dflt ark (Suc n) st =
     (case ReceiveChangedElement dec dflt ark st of
        None \<Rightarrow> None
      | Some (R2, A2, ChangedIndices1, AddedIndices1) \<Rightarrow>
          if IsError R2 then Some (False, R2, A2, ChangedIndices1, AddedIndices1)
          else ReadChangedElements dec dflt ark n (R2, A2, ChangedIndices1, AddedIndices1))"

text \<open>
  The reading branch of \<^verbatim>\<open>FastArrayDeltaSerialize\<close> (standard path, none of the guid
  modes requested): the return value, the reader and the array; \<open>None\<close> for an access
  out of range. The header starts out with no deleted indices; its other fields are
  read before they are used.
\<close>

definition FastArrayDeltaSerialize_Read ::
  "FastArrayLimits \<Rightarrow> ('p \<Rightarrow> FBitReader \<Rightarrow> 'p \<times> FBitReader \<times> nat set \<times> nat set) \<Rightarrow> 'p
   \<Rightarrow> FBitReader \<Rightarrow> 'p FastArray \<Rightarrow> (bool \<times> FBitReader \<times> 'p FastArray) option" where
  "FastArrayDeltaSerialize_Read Limits dec dflt R A0 =
     (let A = ConditionalRebuildItemMap False False A0;
          (ok, Header, R1) =
             ReadDeltaHeader Limits (ArraySerializer A)
               \<lparr>Header_ArrayReplicationKey = 0, BaseReplicationKey = 0, NumChanged = 0,
                DeletedIndices = []\<rparr> R
      in if \<not> ok then Some (False, R1, A)
         else case ReadChangedElements dec dflt (Header_ArrayReplicationKey Header)
                     (nat (sint (NumChanged Header))) (R1, A, [], []) of
                None \<Rightarrow> None
              | Some (ok2, R2, A2, ChangedIndices, AddedIndices) \<Rightarrow>
                  if \<not> ok2 then Some (False, R2, A2)
                  else case PostReceiveCleanup Header ChangedIndices AddedIndices A2 of
                         None \<Rightarrow> None
                       | Some (H', A3) \<Rightarrow> Some (True, R2, A3))"


section \<open>Bounded sequence codec\<close>

text \<open>
  Modelled from the spec: \<^verbatim>\<open>FMath::CeilLogTwo\<close> is not part of the sources at hand; it
  takes an unsigned 32-bit value (the template parameter \<^verbatim>\<open>int32 MaxNum\<close> converted), and
  the count field is sized with \<open>ceil(log2(max_count))\<close>, which is 0 for 0 and 1.
\<close>

definition CeilLogTwo :: "int32 \<Rightarrow> nat" where
  "CeilLogTwo n = ceillog2 (unat n)"

text \<open>
  Modelled from the spec: the archive, with its bit-level serialization of an integer
  variable in a given width (here the \<^verbatim>\<open>int32 ArrayNum\<close>, for widths up to 32). A saving
  archive appends the low bits of the variable, least significant first; a loading
  archive takes the bits off the front and stores them in the variable, the first bit
  lowest, or sets its error flag and stores 0 when fewer bits are left. A full width of
  32 bits fills the sign bit of the variable.
\<close>

record FArchive =
  ArIsSaving :: bool
  ArIsLoading :: bool
  ArIsError :: bool
  Bits :: "bool list"

definition SerializeBits :: "int32 \<Rightarrow> nat \<Rightarrow> FArchive \<Rightarrow> int32 \<times> FArchive" where
  "SerializeBits v LengthBits Ar =
     (if ArIsSaving Ar then (v, Ar\<lparr>Bits := Bits Ar @ map (bit v) [0..<LengthBits]\<rparr>)
      else if ArIsLoading Ar
      then (if ArIsError Ar \<or> length (Bits Ar) < LengthBits then (0, Ar\<lparr>ArIsError := True\<rparr>)
            else (horner_sum of_bool 2 (take LengthBits (Bits Ar)),
                  Ar\<lparr>Bits := drop LengthBits (Bits Ar)\<rparr>))
      else (v, Ar))"

text \<open>
  \<^verbatim>\<open>SafeNetSerializeTArray_HeaderOnly\<close>, with the template parameter \<open>MaxNum\<close> and the
  element a default-constructed entry holds as arguments. \<^verbatim>\<open>ArrayNum\<close> is an \<^verbatim>\<open>int32\<close>
  and both comparisons with \<open>MaxNum\<close> are signed. The result: the count returned, the
  archive, the array, the success flag. \<^verbatim>\<open>TArray\<close> is not part of the sources at hand;
  \<^verbatim>\<open>AddDefaulted\<close> with a negative count is outside its contract, and the array is
  \<open>None\<close> then.
\<close>

definition SafeNetSerializeTArray_HeaderOnly ::
  "int32 \<Rightarrow> 'a \<Rightarrow> FArchive \<Rightarrow> 'a list \<Rightarrow> bool
   \<Rightarrow> int32 \<times> FArchive \<times> 'a list option \<times> bool" where
  "SafeNetSerializeTArray_HeaderOnly MaxNum dflt Ar Array bOutSuccess =
     (let NumBits = CeilLogTwo MaxNum + 1;
          (ArrayNum1, ok1) =
             (if ArIsSaving Ar
              then (if word_sless MaxNum (word_of_nat (length Array)) then (MaxNum, False)
                    else (word_of_nat (length Array), bOutSuccess))
              else (0, bOutSuccess));
          (ArrayNum2, Ar2) = SerializeBits ArrayNum1 NumBits Ar
      in if ArIsLoading Ar2
         then (let (ArrayNum3, ok3) = (if word_sless MaxNum ArrayNum2 then (MaxNum, False)
                                       else (ArrayNum2, ok1))
               in (ArrayNum3, Ar2,
                   (if word_sless ArrayNum3 0 then None
                    else Some (replicate (unat ArrayNum3) dflt)),
                   ok3))
         else (ArrayNum2, Ar2, Some Array, ok1))"


section \<open>Notions used to state the properties of the sending loop\<close>

text \<open>
  What the first loop of \<^verbatim>\<open>BuildChangedAndDeletedBuffers\<close> does to a record \<open>x\<close>,
  giving \<open>y\<close>: a record that is not considered, or has an id, is left alone; a
  considered record without id is marked dirty. And the two tests the loop makes on a
  considered record against the old map: its key differs from the old one or the id is
  not there (changed), the id is not there (new).
\<close>

definition ItemVisited ::
  "bool \<Rightarrow> 'p FFastArraySerializerItem \<Rightarrow> 'p FFastArraySerializerItem \<Rightarrow> bool" where
  "ItemVisited bc x y \<longleftrightarrow>
     ShouldWriteFastArrayItem y bc = ShouldWriteFastArrayItem x bc \<and>
     (\<not> ShouldWriteFastArrayItem x bc \<or> ReplicationID x \<noteq> INDEX_NONE \<longrightarrow> y = x) \<and>
     (ShouldWriteFastArrayItem x bc \<and> ReplicationID x = INDEX_NONE \<longrightarrow>
        (\<exists>S. y = snd (MarkItemDirty S x)))"

definition ItemChanged :: "int32 TMap option \<Rightarrow> 'p FFastArraySerializerItem \<Rightarrow> bool" where
  "ItemChanged Old y \<longleftrightarrow>
     (case Old of None \<Rightarrow> True
      | Some m \<Rightarrow> TMap_Find m (ReplicationID y) \<noteq> Some (ReplicationKey y))"

definition ItemNew :: "int32 TMap option \<Rightarrow> 'p FFastArraySerializerItem \<Rightarrow> bool" where
  "ItemNew Old y \<longleftrightarrow>
     (case Old of None \<Rightarrow> True | Some m \<Rightarrow> TMap_Find m (ReplicationID y) = None)"


section \<open>Notions used to state the properties of receiving a delta twice\<close>

text \<open>
  The item map agrees with the array: every entry of the map points at the record of
  that id, and every record with an id has its entry. This is what
  \<^verbatim>\<open>ConditionalRebuildItemMap\<close> establishes when it rebuilds the map for reading.
\<close>

definition ItemMapConsistent :: "nat TMap \<Rightarrow> 'p FFastArraySerializerItem list \<Rightarrow> bool" where
  "ItemMapConsistent m xs \<longleftrightarrow>
     (\<forall>ID i. TMap_Find m ID = Some i \<longrightarrow> i < length xs \<and> ReplicationID (xs ! i) = ID) \<and>
     (\<forall>i < length xs. ReplicationID (xs ! i) \<noteq> INDEX_NONE \<longrightarrow>
          TMap_Find m (ReplicationID (xs ! i)) = Some i)"

text \<open>
  A per-record decoder consumes the stream independently of the record it fills in:
  the reader it leaves does not depend on the record's previous payload.
\<close>

definition StreamIndependent ::
  "('p \<Rightarrow> FBitReader \<Rightarrow> 'p \<times> FBitReader \<times> nat set \<times> nat set) \<Rightarrow> bool" where
  "StreamIndependent dec \<longleftrightarrow> (\<forall>p q R. fst (snd (dec p R)) = fst (snd (dec q R)))"

text \<open>
  The ids a delta names, read off the stream as the reading branch reads it: the ids
  of the deleted block, the reader after that block, the ids of the changed block (up
  to the first reader error), and where the changed block ends.
\<close>

fun DeletedElementIDs :: "nat \<Rightarrow> FBitReader \<Rightarrow> int32 list" where
  "DeletedElementIDs 0 R = []"
| "DeletedElementIDs (Suc n) R = fst (Read_int32 R) # DeletedElementIDs n (snd (Read_int32 R))"

fun ReaderAfterDeleted :: "nat \<Rightarrow> FBitReader \<Rightarrow> FBitReader" where
  "ReaderAfterDeleted 0 R = R"
| "ReaderAfterDeleted (Suc n) R = ReaderAfterDeleted n (snd (Read_int32 R))"

fun ChangedElementIDs ::
  "('p \<Rightarrow> FBitReader \<Rightarrow> 'p \<times> FBitReader \<times> nat set \<times> nat set) \<Rightarrow> 'p \<Rightarrow> nat \<Rightarrow> FBitReader
   \<Rightarrow> int32 list" where
  "ChangedElementIDs dec q 0 R = []"
| "ChangedElementIDs dec q (Suc n) R =
     fst (Read_int32 R) #
       (if IsError (fst (snd (dec q (snd (Read_int32 R))))) then []
        else ChangedElementIDs dec q n (fst (snd (dec q (snd (Read_int32 R))))))"

fun ChangedElementsEnd ::
  "('p \<Rightarrow> FBitReader \<Rightarrow> 'p \<times> FBitReader \<times> nat set \<times> nat set) \<Rightarrow> 'p \<Rightarrow> nat \<Rightarrow> FBitReader
   \<Rightarrow> bool \<times> FBitReader" where
  "ChangedElementsEnd dec q 0 R = (True, R)"
| "ChangedElementsEnd dec q (Suc n) R =
     (if IsError (fst (snd (dec q (snd (Read_int32 R)))))
      then (False, fst (snd (dec q (snd (Read_int32 R)))))
      else ChangedElementsEnd dec q n (fst (snd (dec q (snd (Read_int32 R))))))"

text \<open>
  The header fields of a delta and the two id lists, as functions of the stream.
\<close>

definition Delta_ArrayKey :: "FBitReader \<Rightarrow> int32" where
  "Delta_ArrayKey R = fst (Read_int32 R)"

definition Delta_BaseKey :: "FBitReader \<Rightarrow> int32" where
  "Delta_BaseKey R = fst (Read_int32 (snd (Read_int32 R)))"

definition Delta_NumDeletes :: "FBitReader \<Rightarrow> int32" where
  "Delta_NumDeletes R = fst (Read_int32 (snd (Read_int32 (snd (Read_int32 R)))))"

definition Delta_NumChanged :: "FBitReader \<Rightarrow> int32" where
  "Delta_NumChanged R =
     fst (Read_int32 (snd (Read_int32 (snd (Read_int32 (snd (Read_int32 R)))))))"

definition Delta_AfterHeader :: "FBitReader \<Rightarrow> FBitReader" where
  "Delta_AfterHeader R =
     snd (Read_int32 (snd (Read_int32 (snd (Read_int32 (snd (Read_int32 R)))))))"

definition Delta_DeletedIDs :: "FBitReader \<Rightarrow> int32 list" where
  "Delta_DeletedIDs R =
     DeletedElementIDs (nat (sint (Delta_NumDeletes R))) (Delta_AfterHeader R)"

definition Delta_ChangedIDs ::
  "('p \<Rightarrow> FBitReader \<Rightarrow> 'p \<times> FBitReader \<times> nat set \<times> nat set) \<Rightarrow> 'p \<Rightarrow> FBitReader
   \<Rightarrow> int32 list" where
  "Delta_ChangedIDs dec q R =
     ChangedElementIDs dec q (nat (sint (Delta_NumChanged R)))
       (ReaderAfterDeleted (nat (sint (Delta_NumDeletes R))) (Delta_AfterHeader R))"

text \<open>
  What the changed-element loop does to the records that were there before it, for the
  list \<open>chs\<close> of ids it reads: ids stay, the key grows by the number of occurrences of
  the id in \<open>chs\<close>, a record whose id is not in \<open>chs\<close> is left alone; the records
  appended have ids of \<open>chs\<close>.
\<close>

definition ChangedRel ::
  "int32 list \<Rightarrow> int32 \<Rightarrow> 'p FFastArraySerializerItem list \<Rightarrow> 'p FFastArraySerializerItem list
   \<Rightarrow> bool" where
  "ChangedRel chs ark xs ys \<longleftrightarrow>
     length xs \<le> length ys \<and>
     (\<forall>i < length xs.
        ReplicationID (ys ! i) = ReplicationID (xs ! i) \<and>
        ReplicationKey (ys ! i) =
          ReplicationKey (xs ! i) + of_nat (count_list chs (ReplicationID (xs ! i))) \<and>
        (if ReplicationID (xs ! i) \<in> set chs
         then MostRecentArrayReplicationKey (ys ! i) = ark else ys ! i = xs ! i)) \<and>
     (\<forall>i < length ys. length xs \<le> i \<longrightarrow>
        ReplicationID (ys ! i) \<in> set chs \<and> MostRecentArrayReplicationKey (ys ! i) = ark) \<and>
     set chs \<subseteq> ReplicationID ` set ys"


section \<open>Properties of dirty tracking\<close>

lemma MarkArrayDirty_key:
  "ArrayReplicationKey (MarkArrayDirty S) =
     (if ArrayReplicationKey S + 1 = INDEX_NONE then ArrayReplicationKey S + 2
      else ArrayReplicationKey S + 1)"
  by (simp add: MarkArrayDirty_def IncrementArrayReplicationKey_def Let_def add.commute)

lemma int32_succ_twice_not_none: "(x::int32) + 1 = - 1 \<Longrightarrow> x + 2 \<noteq> - 1"
proof
  assume a: "x + 1 = - 1" and b: "x + 2 = - 1"
  have "x + 2 = (x + 1) + 1" by simp
  with a b show False by simp
qed

lemma MarkArrayDirty_key_not_none:
  "ArrayReplicationKey (MarkArrayDirty S) \<noteq> INDEX_NONE"
  using int32_succ_twice_not_none [of "ArrayReplicationKey S"]
  by (simp only: MarkArrayDirty_key INDEX_NONE_def split: if_split) blast

text \<open>
  The parts of dirty marking that hold for every record: \<^verbatim>\<open>MarkItemDirty\<close> adds one to the record's
  replication key, moves the array key forward (by one, or by two when one step lands on
  \<^verbatim>\<open>INDEX_NONE\<close>), keeps an id already assigned, and an unassigned record receives the
  counter's next value.
\<close>

lemma MarkItemDirty_effect:
  "ReplicationKey (snd (MarkItemDirty S Item)) = ReplicationKey Item + 1 \<and>
   ArrayReplicationKey (fst (MarkItemDirty S Item)) =
     (if ArrayReplicationKey S + 1 = INDEX_NONE then ArrayReplicationKey S + 2
      else ArrayReplicationKey S + 1) \<and>
   ArrayReplicationKey (fst (MarkItemDirty S Item)) \<noteq> INDEX_NONE \<and>
   ReplicationID (snd (MarkItemDirty S Item)) =
     (if ReplicationID Item = INDEX_NONE then IDCounter S + 1 else ReplicationID Item)"
proof -
  have k: "ArrayReplicationKey (fst (MarkItemDirty S Item)) =
      (if ArrayReplicationKey S + 1 = INDEX_NONE then ArrayReplicationKey S + 2
       else ArrayReplicationKey S + 1)"
    by (simp add: MarkItemDirty_def Let_def MarkArrayDirty_key split: prod.splits if_splits)
  have n: "ArrayReplicationKey (fst (MarkItemDirty S Item)) \<noteq> INDEX_NONE"
    by (simp add: MarkItemDirty_def Let_def MarkArrayDirty_key_not_none split: prod.splits)
  have r: "ReplicationKey (snd (MarkItemDirty S Item)) = ReplicationKey Item + 1"
    by (simp add: MarkItemDirty_def Let_def)
  have i: "ReplicationID (snd (MarkItemDirty S Item)) =
     (if ReplicationID Item = INDEX_NONE then IDCounter S + 1 else ReplicationID Item)"
    by (simp add: MarkItemDirty_def Let_def)
  from k n r i show ?thesis by blast
qed

text \<open>
  C8 (the failing input): with the counter at \<open>- 2\<close>, the pre-increment yields \<open>- 1\<close>,
  which is stored in the record before the counter is moved on to \<open>0\<close>. The record
  marked dirty is left with \<^verbatim>\<open>INDEX_NONE\<close> as its id.
\<close>

theorem MarkItemDirty_assigns_sentinel_at_wrap:
  "ReplicationID (snd (MarkItemDirty
      \<lparr>ItemMap = [], IDCounter = - 2, ArrayReplicationKey = 0, GuidReferencesMap = [],
       CachedNumItems = - 1, CachedNumItemsToConsiderForWriting = - 1\<rparr>
      \<lparr>ReplicationID = INDEX_NONE, ReplicationKey = INDEX_NONE,
       MostRecentArrayReplicationKey = INDEX_NONE, Payload = ()\<rparr>)) = INDEX_NONE \<and>
   IDCounter (fst (MarkItemDirty
      \<lparr>ItemMap = [], IDCounter = - 2, ArrayReplicationKey = 0, GuidReferencesMap = [],
       CachedNumItems = - 1, CachedNumItemsToConsiderForWriting = - 1\<rparr>
      \<lparr>ReplicationID = INDEX_NONE, ReplicationKey = INDEX_NONE,
       MostRecentArrayReplicationKey = INDEX_NONE, Payload = ()\<rparr>)) = 0"
  by (simp add: MarkItemDirty_def Let_def MarkArrayDirty_def IncrementArrayReplicationKey_def
      INDEX_NONE_def)


section \<open>Properties of base states\<close>

text \<open>
  C10: \<^verbatim>\<open>IsStateEqual\<close> is a one-sided containment check. It holds exactly when every
  pair of this state's map is in the other state's map with the same value; pairs only
  the other state has, and the array keys, play no part. So it is not symmetric: the
  empty state is "equal" to a state with one entry, and not the other way round.
\<close>

theorem IsStateEqual_containment:
  "(IsStateEqual This Other \<longleftrightarrow>
      (\<forall>(k, v) \<in> set (IDToCLMap This). TMap_Find (IDToCLMap Other) k = Some v)) \<and>
   (\<exists>A B. IsStateEqual A B \<and> \<not> IsStateEqual B A)"
proof
  show "IsStateEqual This Other \<longleftrightarrow>
      (\<forall>(k, v) \<in> set (IDToCLMap This). TMap_Find (IDToCLMap Other) k = Some v)"
    by (simp add: IsStateEqual_def list_all_iff)
next
  let ?A = "\<lparr>IDToCLMap = [], BaseState_ArrayReplicationKey = 0\<rparr>"
  let ?B = "\<lparr>IDToCLMap = [(1, 1)], BaseState_ArrayReplicationKey = 0\<rparr>"
  have "IsStateEqual ?A ?B \<and> \<not> IsStateEqual ?B ?A"
    by (simp add: IsStateEqual_def TMap_Find_def)
  then show "\<exists>A B. IsStateEqual A B \<and> \<not> IsStateEqual B A"
    by blast
qed

theorem IsStateEqual_containment_witness:
  "IsStateEqual \<lparr>IDToCLMap = [(1, 5)], BaseState_ArrayReplicationKey = 3\<rparr>
                \<lparr>IDToCLMap = [(2, 7), (1, 5)], BaseState_ArrayReplicationKey = 4\<rparr> \<and>
   \<not> IsStateEqual \<lparr>IDToCLMap = [(2, 7), (1, 5)], BaseState_ArrayReplicationKey = 4\<rparr>
                  \<lparr>IDToCLMap = [(1, 5)], BaseState_ArrayReplicationKey = 3\<rparr>"
  using IsStateEqual_containment
    [of "\<lparr>IDToCLMap = [(1, 5)], BaseState_ArrayReplicationKey = 3\<rparr>"
        "\<lparr>IDToCLMap = [(2, 7), (1, 5)], BaseState_ArrayReplicationKey = 4\<rparr>"]
    IsStateEqual_containment
    [of "\<lparr>IDToCLMap = [(2, 7), (1, 5)], BaseState_ArrayReplicationKey = 4\<rparr>"
        "\<lparr>IDToCLMap = [(1, 5)], BaseState_ArrayReplicationKey = 3\<rparr>"]
  by (simp add: TMap_Find_def)


section \<open>Properties of swap-removal\<close>

lemma RemoveAtSwap_snoc:
  "RemoveAtSwap i (ys @ [l]) = (if i < length ys then ys[i := l] else ys)"
  by (simp add: RemoveAtSwap_def list_update_append butlast_append split: nat.splits)

lemma RemoveAtSwap_map:
  "i < length xs \<Longrightarrow> RemoveAtSwap i (map f xs) = map f (RemoveAtSwap i xs)"
  by (cases "xs = []") (simp_all add: RemoveAtSwap_def last_map map_update map_butlast)

lemma length_RemoveAtSwap [simp]: "length (RemoveAtSwap i xs) = length xs - 1"
  by (simp add: RemoveAtSwap_def)

lemma RemoveDeletedItems_map:
  "RemoveDeletedItems ds (map f xs) =
     (map f (fst (RemoveDeletedItems ds xs)), snd (RemoveDeletedItems ds xs))"
proof (induction ds arbitrary: xs)
  case Nil
  show ?case by simp
next
  case (Cons d ds)
  show ?case
  proof (cases "d < length xs")
    case True
    then show ?thesis
      using Cons.IH [of "RemoveAtSwap d xs"]
      by (simp add: RemoveAtSwap_map case_prod_beta)
  next
    case False
    then show ?thesis using Cons.IH [of xs] by simp
  qed
qed

lemma nth_RemoveAtSwap:
  "k < i \<Longrightarrow> i < length xs \<Longrightarrow> RemoveAtSwap i xs ! k = xs ! k"
  by (simp add: RemoveAtSwap_def nth_butlast)

lemma set_RemoveAtSwap:
  assumes "distinct xs" "i < length xs"
  shows "set (RemoveAtSwap i xs) = set xs - {xs ! i} \<and> distinct (RemoveAtSwap i xs)"
proof -
  from assms obtain ys l where xs: "xs = ys @ [l]"
    by (metis less_nat_zero_code list.size(3) rev_exhaust)
  from assms xs have d: "distinct ys" "l \<notin> set ys" by auto
  show ?thesis
  proof (cases "i < length ys")
    case True
    then have "xs ! i = ys ! i" by (simp add: xs nth_append)
    moreover have "ys ! i \<noteq> l" using True d by auto
    ultimately show ?thesis
      using True d by (auto simp: xs RemoveAtSwap_snoc set_update_distinct distinct_list_update)
  next
    case False
    with assms have "i = length ys" by (simp add: xs)
    then show ?thesis using d by (auto simp: xs RemoveAtSwap_snoc)
  qed
qed


lemma length_le_of_distinct_subset:
  assumes "distinct ys" "set ys \<subseteq> {..<n::nat}"
  shows "length ys \<le> n"
proof -
  have "card (set ys) \<le> card {..<n}" using assms(2) by (intro card_mono) auto
  then show ?thesis using assms(1) by (simp add: distinct_card)
qed

lemma RemoveDeletedItems_indices:
  assumes "sorted_wrt (\<ge>) ds" "distinct ys" "set ys \<subseteq> {..<n}"
    "\<forall>d\<in>set ds. d \<notin> set ys \<or> (\<forall>k\<le>d. k < n \<longrightarrow> k < length ys \<and> ys ! k = k)"
  shows "distinct (fst (RemoveDeletedItems ds ys)) \<and>
         set (fst (RemoveDeletedItems ds ys)) \<subseteq> set ys \<and>
         (\<forall>d\<in>set ds. d \<notin> set (fst (RemoveDeletedItems ds ys)))"
  using assms
proof (induction ds arbitrary: ys)
  case Nil
  then show ?case by simp
next
  case (Cons d ds)
  have len: "length ys \<le> n"
    using Cons.prems(2,3) by (rule length_le_of_distinct_subset)
  have sorted: "sorted_wrt (\<ge>) ds" and le: "\<forall>d'\<in>set ds. d' \<le> d"
    using Cons.prems(1) by auto
  have dd: "d \<notin> set ys \<or> (\<forall>k\<le>d. k < n \<longrightarrow> k < length ys \<and> ys ! k = k)"
    using Cons.prems(4) by simp
  show ?case
  proof (cases "d < length ys")
    case True
    let ?ys = "RemoveAtSwap d ys"
    have s: "set ?ys = set ys - {ys ! d}" and di: "distinct ?ys"
      using set_RemoveAtSwap [OF Cons.prems(2) True] by auto
    have sub: "set ?ys \<subseteq> {..<n}" using s Cons.prems(3) by auto
    have dgone: "d \<notin> set ?ys"
    proof (cases "d \<in> set ys")
      case False
      then show ?thesis using s by auto
    next
      case in_ys: True
      with dd True len have "ys ! d = d" by auto
      then show ?thesis using s by auto
    qed
    have inv: "\<forall>d'\<in>set ds. d' \<notin> set ?ys \<or>
        (\<forall>k\<le>d'. k < n \<longrightarrow> k < length ?ys \<and> ?ys ! k = k)"
    proof
      fix d' assume m: "d' \<in> set ds"
      then have d'le: "d' \<le> d" using le by auto
      from m Cons.prems(4)
      have c: "d' \<notin> set ys \<or> (\<forall>k\<le>d'. k < n \<longrightarrow> k < length ys \<and> ys ! k = k)"
        by simp
      show "d' \<notin> set ?ys \<or> (\<forall>k\<le>d'. k < n \<longrightarrow> k < length ?ys \<and> ?ys ! k = k)"
      proof (cases "d' = d")
        case True
        then show ?thesis using dgone by simp
      next
        case False
        with d'le have lt: "d' < d" by simp
        from c show ?thesis
        proof
          assume "d' \<notin> set ys"
          then show ?thesis using s by auto
        next
          assume a: "\<forall>k\<le>d'. k < n \<longrightarrow> k < length ys \<and> ys ! k = k"
          have "\<forall>k\<le>d'. k < n \<longrightarrow> k < length ?ys \<and> ?ys ! k = k"
          proof (intro allI impI)
            fix k assume k: "k \<le> d'" "k < n"
            then have kd: "k < d" using lt by simp
            have "?ys ! k = ys ! k" using kd True by (rule nth_RemoveAtSwap)
            moreover have "ys ! k = k" using a k by simp
            moreover have "k < length ?ys" using kd True by simp
            ultimately show "k < length ?ys \<and> ?ys ! k = k" by simp
          qed
          then show ?thesis by simp
        qed
      qed
    qed
    from Cons.IH [OF sorted di sub inv]
    have ih: "distinct (fst (RemoveDeletedItems ds ?ys))"
      "set (fst (RemoveDeletedItems ds ?ys)) \<subseteq> set ?ys"
      "\<forall>d\<in>set ds. d \<notin> set (fst (RemoveDeletedItems ds ?ys))"
      by auto
    have e: "fst (RemoveDeletedItems (d # ds) ys) = fst (RemoveDeletedItems ds ?ys)"
      using True by (simp add: case_prod_beta)
    show ?thesis unfolding e using ih dgone s by auto
  next
    case False
    have inv: "\<forall>d'\<in>set ds. d' \<notin> set ys \<or>
        (\<forall>k\<le>d'. k < n \<longrightarrow> k < length ys \<and> ys ! k = k)"
      using Cons.prems(4) by simp
    from Cons.IH [OF sorted Cons.prems(2,3) inv]
    have ih: "distinct (fst (RemoveDeletedItems ds ys))"
      "set (fst (RemoveDeletedItems ds ys)) \<subseteq> set ys"
      "\<forall>d\<in>set ds. d \<notin> set (fst (RemoveDeletedItems ds ys))"
      by auto
    have e: "fst (RemoveDeletedItems (d # ds) ys) = fst (RemoveDeletedItems ds ys)"
      using False by simp
    have "d \<notin> set ys"
    proof
      assume i: "d \<in> set ys"
      then have "d < n" using Cons.prems(3) by auto
      with dd i have "d < length ys" by auto
      with False show False by simp
    qed
    then show ?thesis unfolding e using ih by auto
  qed
qed

lemma RemoveDeletedItems_indices_exact:
  assumes "sorted_wrt (>) ds" "distinct ys" "set ys \<subseteq> {..<n}"
    "\<forall>d\<in>set ds. \<forall>k\<le>d. k < n \<longrightarrow> k < length ys \<and> ys ! k = k"
  shows "set (fst (RemoveDeletedItems ds ys)) = set ys - set ds"
  using assms
proof (induction ds arbitrary: ys)
  case Nil
  then show ?case by simp
next
  case (Cons d ds)
  have len: "length ys \<le> n"
    using Cons.prems(2,3) by (rule length_le_of_distinct_subset)
  have sorted: "sorted_wrt (>) ds" and lt: "\<forall>d'\<in>set ds. d' < d"
    using Cons.prems(1) by auto
  show ?case
  proof (cases "d < length ys")
    case True
    let ?ys = "RemoveAtSwap d ys"
    have s: "set ?ys = set ys - {ys ! d}" and di: "distinct ?ys"
      using set_RemoveAtSwap [OF Cons.prems(2) True] by auto
    have yd: "ys ! d = d" using Cons.prems(4) True len by auto
    have sub: "set ?ys \<subseteq> {..<n}" using s Cons.prems(3) by auto
    have inv: "\<forall>d'\<in>set ds. \<forall>k\<le>d'. k < n \<longrightarrow> k < length ?ys \<and> ?ys ! k = k"
    proof (intro ballI allI impI)
      fix d' k assume m: "d' \<in> set ds" and k: "k \<le> d'" "k < n"
      then have kd: "k < d" using lt by auto
      have "?ys ! k = ys ! k" using kd True by (rule nth_RemoveAtSwap)
      moreover have "ys ! k = k" using Cons.prems(4) m k by auto
      moreover have "k < length ?ys" using kd True by simp
      ultimately show "k < length ?ys \<and> ?ys ! k = k" by simp
    qed
    have e: "fst (RemoveDeletedItems (d # ds) ys) = fst (RemoveDeletedItems ds ?ys)"
      using True by (simp add: case_prod_beta)
    show ?thesis unfolding e using Cons.IH [OF sorted di sub inv] s yd by auto
  next
    case False
    have "d \<notin> set ys"
    proof
      assume i: "d \<in> set ys"
      then have "d < n" using Cons.prems(3) by auto
      with Cons.prems(4) have "d < length ys" by auto
      with False show False by simp
    qed
    moreover have inv: "\<forall>d'\<in>set ds. \<forall>k\<le>d'. k < n \<longrightarrow> k < length ys \<and> ys ! k = k"
      using Cons.prems(4) by simp
    moreover have e: "fst (RemoveDeletedItems (d # ds) ys) = fst (RemoveDeletedItems ds ys)"
      using False by simp
    ultimately show ?thesis using Cons.IH [OF sorted Cons.prems(2,3) inv] by auto
  qed
qed

lemma RemoveDeletedItems_events:
  "sorted_wrt (\<ge>) ds \<Longrightarrow>
   \<exists>zs. snd (RemoveDeletedItems ds xs) = map Items_RemoveAtSwap zs \<and>
        set zs \<subseteq> set ds \<and> sorted_wrt (\<ge>) zs"
proof (induction ds arbitrary: xs)
  case Nil
  show ?case by simp
next
  case (Cons d ds)
  then have sorted: "sorted_wrt (\<ge>) ds" and le: "\<forall>d'\<in>set ds. d' \<le> d" by auto
  show ?case
  proof (cases "d < length xs")
    case True
    from Cons.IH [OF sorted, of "RemoveAtSwap d xs"] obtain zs where
      zs: "snd (RemoveDeletedItems ds (RemoveAtSwap d xs)) = map Items_RemoveAtSwap zs"
        "set zs \<subseteq> set ds" "sorted_wrt (\<ge>) zs" by blast
    have "snd (RemoveDeletedItems (d # ds) xs) = map Items_RemoveAtSwap (d # zs)"
      using True zs(1) by (simp add: case_prod_beta)
    moreover have "set (d # zs) \<subseteq> set (d # ds)" using zs(2) by auto
    moreover have "sorted_wrt (\<ge>) (d # zs)" using zs(2,3) le by auto
    ultimately show ?thesis by blast
  next
    case False
    from Cons.IH [OF sorted, of xs] obtain zs where
      zs: "snd (RemoveDeletedItems ds xs) = map Items_RemoveAtSwap zs"
        "set zs \<subseteq> set ds" "sorted_wrt (\<ge>) zs" by blast
    have "snd (RemoveDeletedItems (d # ds) xs) = map Items_RemoveAtSwap zs"
      using False zs(1) by simp
    moreover have "set zs \<subseteq> set (d # ds)" using zs(2) by auto
    ultimately show ?thesis using zs(3) by blast
  qed
qed

lemma RemoveDeletedItems_events_all:
  "sorted_wrt (>) ds \<Longrightarrow> \<forall>d\<in>set ds. d < length xs \<Longrightarrow>
   snd (RemoveDeletedItems ds xs) = map Items_RemoveAtSwap ds"
proof (induction ds arbitrary: xs)
  case Nil
  show ?case by simp
next
  case (Cons d ds)
  then have sorted: "sorted_wrt (>) ds" and lt: "\<forall>d'\<in>set ds. d' < d"
    and v: "d < length xs" by auto
  have "\<forall>d'\<in>set ds. d' < length (RemoveAtSwap d xs)" using lt v by auto
  from Cons.IH [OF sorted this] show ?case using v by (simp add: case_prod_beta)
qed

lemma RemoveDeletedItems_fold:
  "snd (RemoveDeletedItems ds xs) = map Items_RemoveAtSwap zs \<Longrightarrow>
   fst (RemoveDeletedItems ds xs) = fold (\<lambda>z ys. butlast (ys[z := last ys])) zs xs \<and>
   length (fst (RemoveDeletedItems ds xs)) + length zs = length xs"
proof (induction ds arbitrary: xs zs)
  case Nil
  then show ?case by simp
next
  case (Cons d ds)
  show ?case
  proof (cases "d < length xs")
    case True
    with Cons.prems obtain zs' where zs: "zs = d # zs'"
        "snd (RemoveDeletedItems ds (RemoveAtSwap d xs)) = map Items_RemoveAtSwap zs'"
      by (cases zs) (auto simp: case_prod_beta)
    from Cons.IH [OF zs(2)] True show ?thesis
      by (auto simp add: zs(1) case_prod_beta RemoveAtSwap_def)
  next
    case False
    with Cons.prems have "snd (RemoveDeletedItems ds xs) = map Items_RemoveAtSwap zs" by simp
    from Cons.IH [OF this] False show ?thesis by auto
  qed
qed

lemma sorted_wrt_rev_sort: "sorted_wrt (\<ge>) (rev (sort (D::nat list)))"
  by (simp add: sorted_wrt_rev)

lemma strict_sorted_wrt_rev_sort:
  "distinct D \<Longrightarrow> sorted_wrt (>) (rev (sort (D::nat list)))"
  by (simp add: sorted_wrt_rev strict_sorted_iff)

lemma RemoveDeletedItems_survivors:
  assumes "sorted_wrt (\<ge>) ds"
  shows "\<exists>ks. fst (RemoveDeletedItems ds xs) = map ((!) xs) ks \<and> distinct ks \<and>
           set ks \<subseteq> {..<length xs} \<and> (\<forall>d\<in>set ds. d \<notin> set ks) \<and>
           (sorted_wrt (>) ds \<longrightarrow> set ks = {..<length xs} - set ds)"
proof -
  let ?n = "length xs"
  let ?ks = "fst (RemoveDeletedItems ds [0..<?n])"
  have init: "\<forall>d\<in>set ds. \<forall>k\<le>d. k < ?n \<longrightarrow> k < length [0..<?n] \<and> [0..<?n] ! k = k"
    by simp
  have "xs = map ((!) xs) [0..<?n]" by (simp add: map_nth)
  then have "fst (RemoveDeletedItems ds xs) = fst (RemoveDeletedItems ds (map ((!) xs) [0..<?n]))"
    by simp
  also have "\<dots> = map ((!) xs) ?ks" by (simp add: RemoveDeletedItems_map)
  finally have a: "fst (RemoveDeletedItems ds xs) = map ((!) xs) ?ks" .
  have b: "distinct ?ks \<and> set ?ks \<subseteq> set [0..<?n] \<and> (\<forall>d\<in>set ds. d \<notin> set ?ks)"
    using init by (intro RemoveDeletedItems_indices [OF assms, where n = ?n]) auto
  have c: "sorted_wrt (>) ds \<longrightarrow> set ?ks = {..<?n} - set ds"
  proof
    assume s: "sorted_wrt (>) ds"
    have "set ?ks = set [0..<?n] - set ds"
      using init by (intro RemoveDeletedItems_indices_exact [OF s, where n = ?n]) auto
    then show "set ?ks = {..<?n} - set ds" by (simp add: lessThan_atLeast0)
  qed
  from a b c show ?thesis by (intro exI [of _ ?ks]) (auto simp: lessThan_atLeast0)
qed

lemma ImplicitDeletes_set:
  "set (ImplicitDeletes ark brk xs i D) =
     set D \<union> {i + k | k. k < length xs \<and>
                 word_sless (MostRecentArrayReplicationKey (xs ! k)) ark \<and>
                 word_sless brk (MostRecentArrayReplicationKey (xs ! k))}"
proof (induction xs arbitrary: i D)
  case Nil
  show ?case by simp
next
  case (Cons x xs)
  let ?c = "\<lambda>y. word_sless (MostRecentArrayReplicationKey y) ark \<and>
                 word_sless brk (MostRecentArrayReplicationKey y)"
  have split: "{i + k | k. k < length (x # xs) \<and> ?c ((x # xs) ! k)} =
      (if ?c x then {i} else {}) \<union> {Suc i + k | k. k < length xs \<and> ?c (xs ! k)}"
    (is "?L = ?R")
  proof (intro set_eqI iffI)
    fix z assume "z \<in> ?L"
    then obtain k where k: "z = i + k" "k < length (x # xs)" "?c ((x # xs) ! k)" by blast
    show "z \<in> ?R"
    proof (cases k)
      case 0
      with k show ?thesis by simp
    next
      case (Suc j)
      with k have "z = Suc i + j" "j < length xs" "?c (xs ! j)" by simp_all
      then show ?thesis by blast
    qed
  next
    fix z assume "z \<in> ?R"
    then consider "?c x" "z = i" | j where "z = Suc i + j" "j < length xs" "?c (xs ! j)"
      by (auto split: if_splits)
    then show "z \<in> ?L"
    proof cases
      case 1
      then have "z = i + 0" "0 < length (x # xs)" "?c ((x # xs) ! 0)" by simp_all
      then show ?thesis by blast
    next
      case 2
      then have "z = i + Suc j" "Suc j < length (x # xs)" "?c ((x # xs) ! Suc j)" by simp_all
      then show ?thesis by blast
    qed
  qed
  show ?case unfolding split by (simp add: Cons.IH) auto
qed

lemma ImplicitDeletes_distinct:
  "distinct D \<Longrightarrow> distinct (ImplicitDeletes ark brk xs i D)"
  by (induction xs arbitrary: i D) auto

lemma ImplicitDeletes_bound:
  "\<forall>d\<in>set D. d < n \<Longrightarrow> i + length xs \<le> n \<Longrightarrow>
   \<forall>d\<in>set (ImplicitDeletes ark brk xs i D). d < n"
  by (auto simp: ImplicitDeletes_set)

lemma PreRemoveLoop_events:
  "snd (snd (PreRemoveLoop D xs (G, c, ev))) =
     ev @ map Item_PreReplicatedRemove (filter (\<lambda>i. i < length xs) D)"
  by (induction D arbitrary: G c ev) auto


section \<open>Properties of reconciliation\<close>

lemma PostReceiveCleanup_result:
  assumes valid: "\<forall>i\<in>set AddedIndices \<union> set ChangedIndices. i < length (Items A)"
  shows "\<exists>H' A'. PostReceiveCleanup Header ChangedIndices AddedIndices A = Some (H', A') \<and>
     DeletedIndices H' = sort (ImplicitDeleteDetection Header A) \<and>
     Items A' = fst (RemoveDeletedItems (rev (sort (ImplicitDeleteDetection Header A))) (Items A)) \<and>
     Events A' =
       Events A
       @ map Item_PreReplicatedRemove
           (filter (\<lambda>i. i < length (Items A)) (ImplicitDeleteDetection Header A))
       @ [Array_PreReplicatedRemove (ImplicitDeleteDetection Header A)
            (int (length (Items A)) - int (length (ImplicitDeleteDetection Header A)))]
       @ map Item_PostReplicatedAdd AddedIndices
       @ [Array_PostReplicatedAdd AddedIndices
            (int (length (Items A)) - int (length (ImplicitDeleteDetection Header A)))]
       @ map Item_PostReplicatedChange ChangedIndices
       @ [Array_PostReplicatedChange ChangedIndices
            (int (length (Items A)) - int (length (ImplicitDeleteDetection Header A)))]
       @ (if ImplicitDeleteDetection Header A = [] then []
          else snd (RemoveDeletedItems (rev (sort (ImplicitDeleteDetection Header A))) (Items A))
               @ [ItemMap_Empty]) \<and>
     ItemMap (ArraySerializer A') =
       (if ImplicitDeleteDetection Header A = [] then ItemMap (ArraySerializer A) else []) \<and>
     bInternalAck (Parms A') = bInternalAck (Parms A)"
proof -
  let ?D = "ImplicitDeleteDetection Header A"
  let ?S1 = "if 0 < length ?D \<or> word_sless 0 (NumChanged Header)
             then IncrementArrayReplicationKey (ArraySerializer A) else ArraySerializer A"
  obtain G c ev1 where pr: "PreRemoveLoop ?D (Items A)
      (GuidReferencesMap ?S1, bGuidListsChanged (Parms A), Events A) = (G, c, ev1)"
    by (cases "PreRemoveLoop ?D (Items A)
      (GuidReferencesMap ?S1, bGuidListsChanged (Parms A), Events A)") auto
  have ev1: "ev1 = Events A @ map Item_PreReplicatedRemove (filter (\<lambda>i. i < length (Items A)) ?D)"
    using PreRemoveLoop_events [of ?D "Items A" "GuidReferencesMap ?S1"
        "bGuidListsChanged (Parms A)" "Events A"] pr by simp
  have im: "ItemMap ?S1 = ItemMap (ArraySerializer A)"
    by (simp add: IncrementArrayReplicationKey_def Let_def)
  have v1: "\<not> (\<exists>idx\<in>set AddedIndices. \<not> idx < length (Items A))"
    and v2: "\<not> (\<exists>idx\<in>set ChangedIndices. \<not> idx < length (Items A))"
    using valid by auto
  show ?thesis
  proof (cases "?D = []")
    case True
    then show ?thesis
      using pr ev1 v1 v2 im
      by (simp add: PostReceiveCleanup_def Let_def del: ex_simps bex_simps)
  next
    case False
    then have pos: "0 < length ?D" by simp
    obtain xs ev5 where rd: "RemoveDeletedItems (rev (sort ?D)) (Items A) = (xs, ev5)"
      by (cases "RemoveDeletedItems (rev (sort ?D)) (Items A)") auto
    show ?thesis
      using pr ev1 v1 v2 im False pos rd
      by (simp add: PostReceiveCleanup_def Let_def)
  qed
qed

text \<open>
  C4: when \<^verbatim>\<open>PostReceiveCleanup\<close> runs (all added and changed indices in range, as the
  read path hands them over), the events it appends are, in this order: the removal
  callback of every valid deleted index and then the serializer's removal callback; the
  add callback of every added index and then the serializer's; the change callback of
  every changed index and then the serializer's; and only then, when there are deleted
  indices, the swap-removals, at indices \<open>zs\<close> taken from the deleted ones in descending
  order (all of them when they are distinct and valid), followed by the clearing of
  \<^verbatim>\<open>ItemMap\<close>, which is empty afterwards. The deleted indices are left sorted in the
  header. The array afterwards is the old one with, for each index of \<open>zs\<close> in turn, the
  last record moved to that index and the last position dropped: it is shorter by the
  number of removals, and it holds records of the old array at distinct positions that
  are not deleted indices, all of those positions when the deleted indices are distinct.
\<close>

theorem PostReceiveCleanup_callback_order:
  assumes "\<forall>i\<in>set AddedIndices \<union> set ChangedIndices. i < length (Items A)"
  shows "\<exists>H' A' zs.
     PostReceiveCleanup Header ChangedIndices AddedIndices A = Some (H', A') \<and>
     Events A' =
       Events A
       @ map Item_PreReplicatedRemove
           (filter (\<lambda>i. i < length (Items A)) (ImplicitDeleteDetection Header A))
       @ [Array_PreReplicatedRemove (ImplicitDeleteDetection Header A)
            (int (length (Items A)) - int (length (ImplicitDeleteDetection Header A)))]
       @ map Item_PostReplicatedAdd AddedIndices
       @ [Array_PostReplicatedAdd AddedIndices
            (int (length (Items A)) - int (length (ImplicitDeleteDetection Header A)))]
       @ map Item_PostReplicatedChange ChangedIndices
       @ [Array_PostReplicatedChange ChangedIndices
            (int (length (Items A)) - int (length (ImplicitDeleteDetection Header A)))]
       @ (if ImplicitDeleteDetection Header A = [] then []
          else map Items_RemoveAtSwap zs @ [ItemMap_Empty]) \<and>
     sorted_wrt (\<ge>) zs \<and> set zs \<subseteq> set (ImplicitDeleteDetection Header A) \<and>
     (distinct (ImplicitDeleteDetection Header A) \<and>
      (\<forall>d\<in>set (ImplicitDeleteDetection Header A). d < length (Items A))
        \<longrightarrow> zs = rev (sort (ImplicitDeleteDetection Header A))) \<and>
     DeletedIndices H' = sort (ImplicitDeleteDetection Header A) \<and>
     (ImplicitDeleteDetection Header A \<noteq> [] \<longrightarrow> ItemMap (ArraySerializer A') = []) \<and>
     Items A' = fold (\<lambda>z ys. butlast (ys[z := last ys])) zs (Items A) \<and>
     length (Items A') + length zs = length (Items A) \<and>
     (\<exists>ks. Items A' = map ((!) (Items A)) ks \<and> distinct ks \<and>
        set ks \<subseteq> {..<length (Items A)} - set (ImplicitDeleteDetection Header A) \<and>
        (distinct (ImplicitDeleteDetection Header A) \<longrightarrow>
           set ks = {..<length (Items A)} - set (ImplicitDeleteDetection Header A)))"
proof -
  let ?D = "ImplicitDeleteDetection Header A"
  let ?ds = "rev (sort ?D)"
  from PostReceiveCleanup_result [OF assms, of Header] obtain H' A' where
    r: "PostReceiveCleanup Header ChangedIndices AddedIndices A = Some (H', A')"
      "DeletedIndices H' = sort ?D"
      "Events A' =
       Events A
       @ map Item_PreReplicatedRemove (filter (\<lambda>i. i < length (Items A)) ?D)
       @ [Array_PreReplicatedRemove ?D (int (length (Items A)) - int (length ?D))]
       @ map Item_PostReplicatedAdd AddedIndices
       @ [Array_PostReplicatedAdd AddedIndices (int (length (Items A)) - int (length ?D))]
       @ map Item_PostReplicatedChange ChangedIndices
       @ [Array_PostReplicatedChange ChangedIndices (int (length (Items A)) - int (length ?D))]
       @ (if ?D = [] then [] else snd (RemoveDeletedItems ?ds (Items A)) @ [ItemMap_Empty])"
      "ItemMap (ArraySerializer A') = (if ?D = [] then ItemMap (ArraySerializer A) else [])"
      "Items A' = fst (RemoveDeletedItems ?ds (Items A))"
    by blast
  have "\<exists>zs. snd (RemoveDeletedItems ?ds (Items A)) = map Items_RemoveAtSwap zs \<and>
      sorted_wrt (\<ge>) zs \<and> set zs \<subseteq> set ?D \<and>
      (distinct ?D \<and> (\<forall>d\<in>set ?D. d < length (Items A)) \<longrightarrow> zs = ?ds)"
  proof (cases "distinct ?D \<and> (\<forall>d\<in>set ?D. d < length (Items A))")
    case True
    then have "snd (RemoveDeletedItems ?ds (Items A)) = map Items_RemoveAtSwap ?ds"
      by (intro RemoveDeletedItems_events_all strict_sorted_wrt_rev_sort) auto
    moreover have "sorted_wrt (\<ge>) ?ds" by (rule sorted_wrt_rev_sort)
    ultimately show ?thesis by (intro exI [of _ ?ds]) auto
  next
    case False
    from RemoveDeletedItems_events [OF sorted_wrt_rev_sort, of ?D "Items A"]
    obtain zs where "snd (RemoveDeletedItems ?ds (Items A)) = map Items_RemoveAtSwap zs"
      "set zs \<subseteq> set ?ds" "sorted_wrt (\<ge>) zs" by blast
    with False show ?thesis by (intro exI [of _ zs]) auto
  qed
  then obtain zs where zs: "snd (RemoveDeletedItems ?ds (Items A)) = map Items_RemoveAtSwap zs"
      "sorted_wrt (\<ge>) zs" "set zs \<subseteq> set ?D"
      "distinct ?D \<and> (\<forall>d\<in>set ?D. d < length (Items A)) \<longrightarrow> zs = ?ds"
    by blast
  from RemoveDeletedItems_fold [OF zs(1)]
  have fo: "Items A' = fold (\<lambda>z ys. butlast (ys[z := last ys])) zs (Items A)"
    and le: "length (Items A') + length zs = length (Items A)"
    unfolding r(5) by blast+
  from RemoveDeletedItems_survivors [OF sorted_wrt_rev_sort, of ?D "Items A"]
  obtain ks where ks: "fst (RemoveDeletedItems ?ds (Items A)) = map ((!) (Items A)) ks"
      "distinct ks" "set ks \<subseteq> {..<length (Items A)}" "\<forall>d\<in>set ?ds. d \<notin> set ks"
      "sorted_wrt (>) ?ds \<longrightarrow> set ks = {..<length (Items A)} - set ?ds"
    by blast
  have k3: "set ks \<subseteq> {..<length (Items A)} - set ?D" using ks(3,4) by auto
  have k4: "distinct ?D \<longrightarrow> set ks = {..<length (Items A)} - set ?D"
    using ks(5) strict_sorted_wrt_rev_sort [of ?D] by simp
  have sv: "\<exists>ks. Items A' = map ((!) (Items A)) ks \<and> distinct ks \<and>
        set ks \<subseteq> {..<length (Items A)} - set ?D \<and>
        (distinct ?D \<longrightarrow> set ks = {..<length (Items A)} - set ?D)"
    using ks(1,2) k3 k4 unfolding r(5) by blast
  have ev: "Events A' =
       Events A
       @ map Item_PreReplicatedRemove (filter (\<lambda>i. i < length (Items A)) ?D)
       @ [Array_PreReplicatedRemove ?D (int (length (Items A)) - int (length ?D))]
       @ map Item_PostReplicatedAdd AddedIndices
       @ [Array_PostReplicatedAdd AddedIndices (int (length (Items A)) - int (length ?D))]
       @ map Item_PostReplicatedChange ChangedIndices
       @ [Array_PostReplicatedChange ChangedIndices (int (length (Items A)) - int (length ?D))]
       @ (if ?D = [] then [] else map Items_RemoveAtSwap zs @ [ItemMap_Empty])"
    using r(3) zs(1) by simp
  have im: "?D \<noteq> [] \<longrightarrow> ItemMap (ArraySerializer A') = []" using r(4) by simp
  show ?thesis
    apply (rule exI [of _ H'], rule exI [of _ A'], rule exI [of _ zs])
    by (intro conjI r(1) ev zs(2) zs(3) zs(4) r(2) im fo le sv)
qed

theorem PostReceiveCleanup_callback_order_witness:
  "\<exists>H' A'. PostReceiveCleanup
       \<lparr>Header_ArrayReplicationKey = 9, BaseReplicationKey = 5, NumChanged = 2,
        DeletedIndices = [0]\<rparr> [1] [2]
       \<lparr>Items = [\<lparr>ReplicationID = 7, ReplicationKey = 1,
                  MostRecentArrayReplicationKey = 4, Payload = ()\<rparr>,
                 \<lparr>ReplicationID = 8, ReplicationKey = 2,
                  MostRecentArrayReplicationKey = 9, Payload = ()\<rparr>,
                 \<lparr>ReplicationID = 9, ReplicationKey = 0,
                  MostRecentArrayReplicationKey = 9, Payload = ()\<rparr>],
        ArraySerializer = \<lparr>ItemMap = [(7, 0), (8, 1), (9, 2)], IDCounter = 0,
          ArrayReplicationKey = 3,
          GuidReferencesMap = [], CachedNumItems = - 1,
          CachedNumItemsToConsiderForWriting = - 1\<rparr>,
        Parms = \<lparr>bInternalAck = False, bIsWritingOnClient = False, bGuidListsChanged = False,
          bOutHasMoreUnmapped = False, OldState = None, NewState = None\<rparr>,
        Events = []\<rparr> = Some (H', A') \<and>
     Events A' = [Item_PreReplicatedRemove 0, Array_PreReplicatedRemove [0] 2,
                  Item_PostReplicatedAdd 2, Array_PostReplicatedAdd [2] 2,
                  Item_PostReplicatedChange 1, Array_PostReplicatedChange [1] 2,
                  Items_RemoveAtSwap 0, ItemMap_Empty] \<and>
     ItemMap (ArraySerializer A') = [] \<and>
     Items A' = [\<lparr>ReplicationID = 9, ReplicationKey = 0,
                  MostRecentArrayReplicationKey = 9, Payload = ()\<rparr>,
                 \<lparr>ReplicationID = 8, ReplicationKey = 2,
                  MostRecentArrayReplicationKey = 9, Payload = ()\<rparr>]"
  using PostReceiveCleanup_callback_order
    [where AddedIndices = "[2]" and ChangedIndices = "[1]"
       and Header = "\<lparr>Header_ArrayReplicationKey = 9, BaseReplicationKey = 5, NumChanged = 2,
        DeletedIndices = [0]\<rparr>"
       and A = "\<lparr>Items = [\<lparr>ReplicationID = 7, ReplicationKey = 1,
                  MostRecentArrayReplicationKey = 4, Payload = ()\<rparr>,
                 \<lparr>ReplicationID = 8, ReplicationKey = 2,
                  MostRecentArrayReplicationKey = 9, Payload = ()\<rparr>,
                 \<lparr>ReplicationID = 9, ReplicationKey = 0,
                  MostRecentArrayReplicationKey = 9, Payload = ()\<rparr>],
        ArraySerializer = \<lparr>ItemMap = [(7, 0), (8, 1), (9, 2)], IDCounter = 0,
          ArrayReplicationKey = 3,
          GuidReferencesMap = [], CachedNumItems = - 1,
          CachedNumItemsToConsiderForWriting = - 1\<rparr>,
        Parms = \<lparr>bInternalAck = False, bIsWritingOnClient = False, bGuidListsChanged = False,
          bOutHasMoreUnmapped = False, OldState = None, NewState = None\<rparr>,
        Events = []\<rparr>"]
  by (simp add: ImplicitDeleteDetection_def) blast

text \<open>
  C2, as stated, fails when \<^verbatim>\<open>bInternalAck\<close> is set: with base key 5, array key 9 and a
  record at most recent key 6 that is not explicitly deleted, the record stays and no
  index is deleted.
\<close>

theorem PostReceiveCleanup_implicit_delete_counterexample:
  "PostReceiveCleanup
     \<lparr>Header_ArrayReplicationKey = 9, BaseReplicationKey = 5, NumChanged = 0,
      DeletedIndices = []\<rparr> [] []
     \<lparr>Items = [\<lparr>ReplicationID = 7, ReplicationKey = 1,
                MostRecentArrayReplicationKey = 6, Payload = ()\<rparr>],
      ArraySerializer = \<lparr>ItemMap = [(7, 0)], IDCounter = 0, ArrayReplicationKey = 3,
        GuidReferencesMap = [], CachedNumItems = - 1,
        CachedNumItemsToConsiderForWriting = - 1\<rparr>,
      Parms = \<lparr>bInternalAck = True, bIsWritingOnClient = False, bGuidListsChanged = False,
        bOutHasMoreUnmapped = False, OldState = None, NewState = None\<rparr>,
      Events = []\<rparr>
   = Some (\<lparr>Header_ArrayReplicationKey = 9, BaseReplicationKey = 5, NumChanged = 0,
      DeletedIndices = []\<rparr>,
     \<lparr>Items = [\<lparr>ReplicationID = 7, ReplicationKey = 1,
                MostRecentArrayReplicationKey = 6, Payload = ()\<rparr>],
      ArraySerializer = \<lparr>ItemMap = [(7, 0)], IDCounter = 0, ArrayReplicationKey = 3,
        GuidReferencesMap = [], CachedNumItems = - 1,
        CachedNumItemsToConsiderForWriting = - 1\<rparr>,
      Parms = \<lparr>bInternalAck = True, bIsWritingOnClient = False, bGuidListsChanged = False,
        bOutHasMoreUnmapped = False, OldState = None, NewState = None\<rparr>,
      Events = [Array_PreReplicatedRemove [] 1, Array_PostReplicatedAdd [] 1,
        Array_PostReplicatedChange [] 1]\<rparr>)"
  by (simp add: PostReceiveCleanup_def ImplicitDeleteDetection_def Let_def)

text \<open>
  C2, amended: when \<^verbatim>\<open>bInternalAck\<close> is not set, every record at a position \<open>j\<close> that
  is not among the explicitly deleted indices and whose most recent array key lies
  strictly (in the signed order) between the header's base key and array key is among
  the deleted indices after the cleanup, and is removed: the array left consists of the
  records at positions \<open>ks\<close> of the old one, \<open>j\<close> not among them; with distinct
  replication ids, the id of that record is gone from the array.
\<close>

theorem PostReceiveCleanup_implicit_delete:
  assumes "\<not> bInternalAck (Parms A)"
    and "\<forall>i\<in>set AddedIndices \<union> set ChangedIndices. i < length (Items A)"
    and "j < length (Items A)"
    and "j \<notin> set (DeletedIndices Header)"
    and "word_sless (BaseReplicationKey Header) (MostRecentArrayReplicationKey (Items A ! j))"
    and "word_sless (MostRecentArrayReplicationKey (Items A ! j)) (Header_ArrayReplicationKey Header)"
  shows "\<exists>H' A' ks.
     PostReceiveCleanup Header ChangedIndices AddedIndices A = Some (H', A') \<and>
     j \<in> set (DeletedIndices H') \<and>
     Items A' = map ((!) (Items A)) ks \<and> j \<notin> set ks \<and> distinct ks \<and>
     set ks \<subseteq> {..<length (Items A)} \<and>
     (distinct (map ReplicationID (Items A)) \<longrightarrow>
        ReplicationID (Items A ! j) \<notin> ReplicationID ` set (Items A'))"
proof -
  let ?D = "ImplicitDeleteDetection Header A"
  let ?ds = "rev (sort ?D)"
  from PostReceiveCleanup_result [OF assms(2), of Header] obtain H' A' where
    r: "PostReceiveCleanup Header ChangedIndices AddedIndices A = Some (H', A')"
      "DeletedIndices H' = sort ?D"
      "Items A' = fst (RemoveDeletedItems ?ds (Items A))"
    by blast
  have D: "?D = ImplicitDeletes (Header_ArrayReplicationKey Header)
      (BaseReplicationKey Header) (Items A) 0 (DeletedIndices Header)"
    using assms(1) by (simp add: ImplicitDeleteDetection_def)
  have "0 + j \<in> set ?D"
    unfolding D ImplicitDeletes_set using assms(3,5,6) by blast
  then have jD: "j \<in> set ?D" by simp
  from RemoveDeletedItems_survivors [OF sorted_wrt_rev_sort, of ?D "Items A"]
  obtain ks where ks: "fst (RemoveDeletedItems ?ds (Items A)) = map ((!) (Items A)) ks"
      "distinct ks" "set ks \<subseteq> {..<length (Items A)}" "\<forall>d\<in>set ?ds. d \<notin> set ks"
    by blast
  have jks: "j \<notin> set ks" using ks(4) jD by simp
  have ids: "distinct (map ReplicationID (Items A)) \<longrightarrow>
        ReplicationID (Items A ! j) \<notin> ReplicationID ` set (Items A')"
  proof
    assume d: "distinct (map ReplicationID (Items A))"
    show "ReplicationID (Items A ! j) \<notin> ReplicationID ` set (Items A')"
    proof
      assume "ReplicationID (Items A ! j) \<in> ReplicationID ` set (Items A')"
      then obtain k where k: "k \<in> set ks"
          "ReplicationID (Items A ! j) = ReplicationID (Items A ! k)"
        unfolding r(3) ks(1) by auto
      then have kl: "k < length (Items A)" using ks(3) by auto
      have "j = k"
        using nth_eq_iff_index_eq [OF d, of j k] k(2) kl assms(3) by simp
      with k(1) jks show False by simp
    qed
  qed
  show ?thesis
    apply (intro exI [of _ H'] exI [of _ A'] exI [of _ ks] conjI)
    using r ks jks jD ids by simp_all
qed

theorem PostReceiveCleanup_implicit_delete_witness:
  "\<exists>H' A'. PostReceiveCleanup
       \<lparr>Header_ArrayReplicationKey = 9, BaseReplicationKey = 5, NumChanged = 0,
        DeletedIndices = []\<rparr> [] []
       \<lparr>Items = [\<lparr>ReplicationID = 7, ReplicationKey = 1,
                  MostRecentArrayReplicationKey = 6, Payload = ()\<rparr>,
                 \<lparr>ReplicationID = 8, ReplicationKey = 1,
                  MostRecentArrayReplicationKey = 4, Payload = ()\<rparr>],
        ArraySerializer = \<lparr>ItemMap = [(7, 0), (8, 1)], IDCounter = 0, ArrayReplicationKey = 3,
          GuidReferencesMap = [], CachedNumItems = - 1,
          CachedNumItemsToConsiderForWriting = - 1\<rparr>,
        Parms = \<lparr>bInternalAck = False, bIsWritingOnClient = False, bGuidListsChanged = False,
          bOutHasMoreUnmapped = False, OldState = None, NewState = None\<rparr>,
        Events = []\<rparr> = Some (H', A') \<and>
     0 \<in> set (DeletedIndices H') \<and> 7 \<notin> ReplicationID ` set (Items A')"
  using PostReceiveCleanup_implicit_delete
    [where j = 0 and AddedIndices = "[]" and ChangedIndices = "[]"
       and Header = "\<lparr>Header_ArrayReplicationKey = 9, BaseReplicationKey = 5, NumChanged = 0,
        DeletedIndices = []\<rparr>"
       and A = "\<lparr>Items = [\<lparr>ReplicationID = 7, ReplicationKey = 1,
                  MostRecentArrayReplicationKey = 6, Payload = ()\<rparr>,
                 \<lparr>ReplicationID = 8, ReplicationKey = 1,
                  MostRecentArrayReplicationKey = 4, Payload = ()\<rparr>],
        ArraySerializer = \<lparr>ItemMap = [(7, 0), (8, 1)], IDCounter = 0, ArrayReplicationKey = 3,
          GuidReferencesMap = [], CachedNumItems = - 1,
          CachedNumItemsToConsiderForWriting = - 1\<rparr>,
        Parms = \<lparr>bInternalAck = False, bIsWritingOnClient = False, bGuidListsChanged = False,
          bOutHasMoreUnmapped = False, OldState = None, NewState = None\<rparr>,
        Events = []\<rparr>"]
  by simp blast

text \<open>
  When \<^verbatim>\<open>bInternalAck\<close> is set, the search for implicit deletes is skipped: the
  deleted indices after the cleanup are the explicitly decoded ones (sorted), whatever
  the most recent array keys of the records are, and, the explicit indices being
  distinct, the records left are exactly those at the positions that are not
  explicitly deleted.
\<close>

lemma PostReceiveCleanup_internal_ack:
  assumes "bInternalAck (Parms A)"
    and "\<forall>i\<in>set AddedIndices \<union> set ChangedIndices. i < length (Items A)"
  shows "\<exists>H' A' ks.
     PostReceiveCleanup Header ChangedIndices AddedIndices A = Some (H', A') \<and>
     ImplicitDeleteDetection Header A = DeletedIndices Header \<and>
     DeletedIndices H' = sort (DeletedIndices Header) \<and>
     Items A' = map ((!) (Items A)) ks \<and> distinct ks \<and> set ks \<subseteq> {..<length (Items A)} \<and>
     (distinct (DeletedIndices Header) \<longrightarrow>
        set ks = {..<length (Items A)} - set (DeletedIndices Header))"
proof -
  let ?D = "ImplicitDeleteDetection Header A"
  let ?ds = "rev (sort ?D)"
  have D: "?D = DeletedIndices Header"
    using assms(1) by (simp add: ImplicitDeleteDetection_def)
  from PostReceiveCleanup_result [OF assms(2), of Header] obtain H' A' where
    r: "PostReceiveCleanup Header ChangedIndices AddedIndices A = Some (H', A')"
      "DeletedIndices H' = sort ?D"
      "Items A' = fst (RemoveDeletedItems ?ds (Items A))"
    by blast
  from RemoveDeletedItems_survivors [OF sorted_wrt_rev_sort, of ?D "Items A"]
  obtain ks where ks: "fst (RemoveDeletedItems ?ds (Items A)) = map ((!) (Items A)) ks"
      "distinct ks" "set ks \<subseteq> {..<length (Items A)}"
      "sorted_wrt (>) ?ds \<longrightarrow> set ks = {..<length (Items A)} - set ?ds"
    by blast
  have ex: "distinct (DeletedIndices Header) \<longrightarrow>
        set ks = {..<length (Items A)} - set (DeletedIndices Header)"
    using ks(4) strict_sorted_wrt_rev_sort [of ?D] D by simp
  show ?thesis
    apply (intro exI [of _ H'] exI [of _ A'] exI [of _ ks] conjI)
    using r ks(1,2,3) D ex by simp_all
qed

lemma PostReceiveCleanup_internal_ack_example:
  "\<exists>H' A' ks. PostReceiveCleanup
       \<lparr>Header_ArrayReplicationKey = 9, BaseReplicationKey = 5, NumChanged = 0,
        DeletedIndices = [1]\<rparr> [] []
       \<lparr>Items = [\<lparr>ReplicationID = 7, ReplicationKey = 1,
                  MostRecentArrayReplicationKey = 6, Payload = ()\<rparr>,
                 \<lparr>ReplicationID = 8, ReplicationKey = 1,
                  MostRecentArrayReplicationKey = 4, Payload = ()\<rparr>],
        ArraySerializer = \<lparr>ItemMap = [(7, 0), (8, 1)], IDCounter = 0, ArrayReplicationKey = 3,
          GuidReferencesMap = [], CachedNumItems = - 1,
          CachedNumItemsToConsiderForWriting = - 1\<rparr>,
        Parms = \<lparr>bInternalAck = True, bIsWritingOnClient = False, bGuidListsChanged = False,
          bOutHasMoreUnmapped = False, OldState = None, NewState = None\<rparr>,
        Events = []\<rparr> = Some (H', A') \<and>
     DeletedIndices H' = [1] \<and> set ks = {0} \<and>
     Items A' = map ((!) [\<lparr>ReplicationID = 7, ReplicationKey = 1,
                  MostRecentArrayReplicationKey = 6, Payload = ()\<rparr>,
                 \<lparr>ReplicationID = 8, ReplicationKey = 1,
                  MostRecentArrayReplicationKey = 4, Payload = ()\<rparr>]) ks"
proof -
  have e: "{..<Suc (Suc 0)} - {Suc 0} = {0::nat}" by auto
  show ?thesis
  using PostReceiveCleanup_internal_ack
    [where AddedIndices = "[]" and ChangedIndices = "[]"
       and Header = "\<lparr>Header_ArrayReplicationKey = 9, BaseReplicationKey = 5, NumChanged = 0,
        DeletedIndices = [1]\<rparr>"
       and A = "\<lparr>Items = [\<lparr>ReplicationID = 7, ReplicationKey = 1,
                  MostRecentArrayReplicationKey = 6, Payload = ()\<rparr>,
                 \<lparr>ReplicationID = 8, ReplicationKey = 1,
                  MostRecentArrayReplicationKey = 4, Payload = ()\<rparr>],
        ArraySerializer = \<lparr>ItemMap = [(7, 0), (8, 1)], IDCounter = 0, ArrayReplicationKey = 3,
          GuidReferencesMap = [], CachedNumItems = - 1,
          CachedNumItemsToConsiderForWriting = - 1\<rparr>,
        Parms = \<lparr>bInternalAck = True, bIsWritingOnClient = False, bGuidListsChanged = False,
          bOutHasMoreUnmapped = False, OldState = None, NewState = None\<rparr>,
        Events = []\<rparr>"]
  by (simp add: e) blast
qed

section \<open>Properties of the bounded sequence codec\<close>

text \<open>The width of the count field: \<open>CeilLogTwo\<close> is the ceiling of the binary logarithm.\<close>

lemma ceillog2_is_ceiling_log: "0 < m \<Longrightarrow> int (ceillog2 m) = \<lceil>log 2 (real m)\<rceil>"
proof -
  assume m: "0 < m"
  then have "1 \<le> real m" by simp
  then have "0 \<le> log 2 (real m)" by simp
  then have "0 \<le> \<lceil>log 2 (real m)\<rceil>" by linarith
  then show ?thesis using m by (simp add: ceillog2_def)
qed

lemma CeilLogTwo_is_ceiling_log:
  "0 < unat n \<Longrightarrow> int (CeilLogTwo n) = \<lceil>log 2 (real (unat n))\<rceil>"
  unfolding CeilLogTwo_def by (rule ceillog2_is_ceiling_log)

lemma CeilLogTwo_bounds:
  assumes "0 < unat MaxNum" "unat MaxNum \<le> 2 ^ l"
  shows "CeilLogTwo MaxNum \<le> l" and "unat MaxNum \<le> 2 ^ CeilLogTwo MaxNum"
  using assms ceillog2_le_iff [of "unat MaxNum" l]
  by (simp_all add: CeilLogTwo_def le_two_power_ceillog2)

text \<open>Signed and unsigned readings of an \<^verbatim>\<open>int32\<close> whose sign bit is not set.\<close>

lemma int32_sless_0_iff: "word_sless (w :: int32) 0 \<longleftrightarrow> bit w 31"
  by (simp add: word_sless_alt sint_uint bit_unsigned_iff)

lemma int32_nonneg_unat:
  fixes M :: int32
  assumes "\<not> word_sless M 0"
  shows "int (unat M) = sint M" and "unat M < 2 ^ 31"
proof -
  from assms have nb: "\<not> bit M 31" by (simp add: int32_sless_0_iff)
  have "sint M = uint M"
    by (rule bit_eqI) (use nb in \<open>auto simp: bit_sint_iff bit_unsigned_iff dest: bit_imp_le_length\<close>)
  then show a: "int (unat M) = sint M" by simp
  have "sint M < 2 ^ (LENGTH(32) - 1)" by (rule sint_lt)
  then have "sint M < 2 ^ 31" by simp
  moreover have "unat M = nat (sint M)" using a by linarith
  ultimately show "unat M < 2 ^ 31" by (simp only: nat_less_numeral_power_cancel_iff)
qed

lemma int32_small_nonneg:
  fixes M :: int32
  assumes "unat M < 2 ^ 31"
  shows "\<not> word_sless M 0"
proof -
  have "take_bit 31 (unat M) = unat M" using assms by (simp add: take_bit_nat_eq_self)
  then have "bit (unat M) 31 = bit (take_bit 31 (unat M)) 31" by simp
  then have "\<not> bit (unat M) 31" by (simp add: bit_take_bit_iff)
  then have "\<not> bit M 31" by (simp add: bit_unsigned_iff)
  then show ?thesis by (simp add: int32_sless_0_iff)
qed

lemma int32_of_nat_small:
  assumes "n < 2 ^ 31"
  shows "unat (word_of_nat n :: int32) = n" and "\<not> word_sless (word_of_nat n :: int32) 0"
proof -
  show u: "unat (word_of_nat n :: int32) = n"
  proof -
    have "n < 2 ^ 32" using assms by simp
    then show ?thesis by (simp add: unsigned_of_nat take_bit_nat_eq_self)
  qed
  show "\<not> word_sless (word_of_nat n :: int32) 0"
    by (rule int32_small_nonneg) (use assms in \<open>simp add: u\<close>)
qed

text \<open>The value a loading archive stores from at most 31 bits is not negative.\<close>

lemma horner_sum_take_bit:
  "take_bit (length bs) (horner_sum of_bool 2 bs :: int32) = horner_sum of_bool 2 bs"
  by (rule bit_eqI) (auto simp: bit_take_bit_iff bit_horner_sum_bit_iff)

lemma horner_sum_unat: "unat (horner_sum of_bool 2 bs :: int32) < 2 ^ length bs"
proof -
  have "unat (horner_sum of_bool 2 bs :: int32) =
        unat (take_bit (length bs) (horner_sum of_bool 2 bs :: int32))"
    by (simp only: horner_sum_take_bit)
  also have "\<dots> = take_bit (length bs) (unat (horner_sum of_bool 2 bs :: int32))"
    by (simp add: unsigned_take_bit_eq)
  also have "\<dots> < 2 ^ length bs" by (rule take_bit_nat_less_exp)
  finally show ?thesis .
qed

lemma horner_sum_nonneg:
  assumes "length bs \<le> 31"
  shows "\<not> word_sless (horner_sum of_bool 2 bs :: int32) 0"
proof -
  have "\<not> bit (horner_sum of_bool 2 bs :: int32) 31"
    using assms by (simp add: bit_horner_sum_bit_iff)
  then show ?thesis by (simp add: int32_sless_0_iff)
qed

lemma word_sless_nonneg:
  fixes a b :: int32
  assumes "\<not> word_sless a 0" "\<not> word_sless b 0"
  shows "word_sless a b \<longleftrightarrow> unat a < unat b"
  using int32_nonneg_unat(1) [OF assms(1)] int32_nonneg_unat(1) [OF assms(2)]
  by (simp add: word_sless_alt flip: of_nat_less_iff [where 'a = int])

lemma bits_roundtrip:
  fixes w :: int32
  assumes "unat w < 2 ^ n"
  shows "horner_sum of_bool 2 (map (bit w) [0..<n]) = w"
proof -
  have "horner_sum of_bool 2 (map (bit w) [0..<n]) = take_bit n w"
    by (rule horner_sum_bit_eq_take_bit)
  also have "\<dots> = w"
  proof (rule unsigned_word_eqI [where ?'a = nat])
    show "unat (take_bit n w) = unat w"
      using assms by (simp add: unsigned_take_bit_eq take_bit_nat_eq_self)
  qed
  finally show ?thesis .
qed

text \<open>
  Saving, for a bound that is not negative: the count written and returned is the length
  clamped to \<open>MaxNum\<close>, the count field is made of its \<open>CeilLogTwo MaxNum + 1\<close> low
  bits, the success flag is cleared when the length exceeded \<open>MaxNum\<close>, and the array
  is untouched.
\<close>

lemma SafeNet_saving:
  assumes "ArIsSaving Ar" "\<not> ArIsLoading Ar" "unat MaxNum < 2 ^ 31" "length Array < 2 ^ 31"
  shows "SafeNetSerializeTArray_HeaderOnly MaxNum dflt Ar Array ok =
     (word_of_nat (min (length Array) (unat MaxNum)),
      Ar\<lparr>Bits := Bits Ar @ map (bit (word_of_nat (min (length Array) (unat MaxNum)) :: int32))
                              [0..<CeilLogTwo MaxNum + 1]\<rparr>,
      Some Array, ok \<and> length Array \<le> unat MaxNum)"
proof -
  let ?w = "word_of_nat (length Array) :: int32"
  have c: "word_sless MaxNum ?w \<longleftrightarrow> unat MaxNum < length Array"
    using word_sless_nonneg [OF int32_small_nonneg [OF assms(3)] int32_of_nat_small(2) [OF assms(4)]]
    by (simp add: int32_of_nat_small(1) [OF assms(4)])
  show ?thesis
  proof (cases "unat MaxNum < length Array")
    case True
    then have "min (length Array) (unat MaxNum) = unat MaxNum" by simp
    then show ?thesis
      using assms(1,2) c True
      by (simp add: SafeNetSerializeTArray_HeaderOnly_def SerializeBits_def Let_def)
  next
    case False
    then have "min (length Array) (unat MaxNum) = length Array" by simp
    then show ?thesis
      using assms(1,2) c False
      by (simp add: SafeNetSerializeTArray_HeaderOnly_def SerializeBits_def Let_def)
  qed
qed

text \<open>
  Loading, for a bound from 1 to \<open>2 ^ 30\<close>: the count field has at most 31 bits, so the
  count decoded is not negative whatever the bits are; the array is reset to as many
  default entries as the decoded count clamped to \<open>MaxNum\<close>, and the success flag is
  cleared when the decoded count exceeded \<open>MaxNum\<close>.
\<close>

lemma SerializeBits_loaded_nonneg:
  assumes "ArIsLoading Ar" "\<not> ArIsSaving Ar" "n \<le> 31"
  shows "\<not> word_sless (fst (SerializeBits 0 n Ar)) 0"
  using assms horner_sum_nonneg [of "take n (Bits Ar)"]
  by (simp add: SerializeBits_def word_sless_alt)

lemma SafeNet_loading:
  assumes "ArIsLoading Ar" "\<not> ArIsSaving Ar" "0 < unat MaxNum" "unat MaxNum \<le> 2 ^ 30"
  shows "SafeNetSerializeTArray_HeaderOnly MaxNum dflt Ar Array ok =
     (word_of_nat (min (unat (fst (SerializeBits 0 (CeilLogTwo MaxNum + 1) Ar))) (unat MaxNum)),
      snd (SerializeBits 0 (CeilLogTwo MaxNum + 1) Ar),
      Some (replicate (min (unat (fst (SerializeBits 0 (CeilLogTwo MaxNum + 1) Ar)))
                           (unat MaxNum)) dflt),
      ok \<and> unat (fst (SerializeBits 0 (CeilLogTwo MaxNum + 1) Ar)) \<le> unat MaxNum)"
proof -
  let ?n = "CeilLogTwo MaxNum + 1"
  let ?v = "fst (SerializeBits 0 ?n Ar)"
  let ?Ar = "snd (SerializeBits 0 ?n Ar)"
  have n: "?n \<le> 31" using CeilLogTwo_bounds(1) [OF assms(3,4)] by simp
  have vn: "\<not> word_sless ?v 0" by (rule SerializeBits_loaded_nonneg [OF assms(1,2) n])
  have m: "unat MaxNum < 2 ^ 31" using assms(4) by simp
  have mn: "\<not> word_sless MaxNum 0" by (rule int32_small_nonneg [OF m])
  have c: "word_sless MaxNum ?v \<longleftrightarrow> unat MaxNum < unat ?v"
    by (rule word_sless_nonneg [OF mn vn])
  have l: "ArIsLoading ?Ar" using assms(1,2) by (simp add: SerializeBits_def)
  have sb: "SerializeBits 0 ?n Ar = (?v, ?Ar)" by simp
  show ?thesis
  proof (cases "unat MaxNum < unat ?v")
    case True
    then have "min (unat ?v) (unat MaxNum) = unat MaxNum" by simp
    then show ?thesis
      using assms(1,2) c True l mn
      by (simp add: SafeNetSerializeTArray_HeaderOnly_def Let_def case_prod_beta)
  next
    case False
    then have "min (unat ?v) (unat MaxNum) = unat ?v" by simp
    then show ?thesis
      using assms(1,2) c False l vn
      by (simp add: SafeNetSerializeTArray_HeaderOnly_def Let_def case_prod_beta)
  qed
qed

text \<open>
  Loading what was saved from an array no longer than \<open>MaxNum\<close>, for such a bound,
  gives an array of the same length, leaves the flag alone and consumes exactly the
  count field.
\<close>

lemma SerializeBits_roundtrip:
  fixes v :: int32
  assumes "unat v < 2 ^ n"
  shows "SerializeBits w n \<lparr>ArIsSaving = False, ArIsLoading = True, ArIsError = False,
            Bits = map (bit v) [0..<n] @ rest\<rparr>
         = (v, \<lparr>ArIsSaving = False, ArIsLoading = True, ArIsError = False, Bits = rest\<rparr>)"
  using bits_roundtrip [OF assms] by (simp add: SerializeBits_def)

lemma SafeNet_roundtrip:
  assumes "0 < unat MaxNum" "unat MaxNum \<le> 2 ^ 30" "length Array \<le> unat MaxNum"
  shows "SafeNetSerializeTArray_HeaderOnly MaxNum dflt
           \<lparr>ArIsSaving = False, ArIsLoading = True, ArIsError = False,
            Bits = map (bit (word_of_nat (length Array) :: int32)) [0..<CeilLogTwo MaxNum + 1]
                   @ rest\<rparr> Array2 ok2
         = (word_of_nat (length Array),
            \<lparr>ArIsSaving = False, ArIsLoading = True, ArIsError = False, Bits = rest\<rparr>,
            Some (replicate (length Array) dflt), ok2)"
proof -
  let ?n = "CeilLogTwo MaxNum + 1"
  let ?w = "word_of_nat (length Array) :: int32"
  have lt: "length Array < 2 ^ 31" using assms(2,3) by simp
  have u: "unat ?w = length Array" by (rule int32_of_nat_small(1) [OF lt])
  have "length Array \<le> 2 ^ CeilLogTwo MaxNum"
    using assms(3) CeilLogTwo_bounds(2) [OF assms(1,2)] by simp
  also have "(2::nat) ^ CeilLogTwo MaxNum < 2 ^ ?n" by simp
  finally have fit: "unat ?w < 2 ^ ?n" by (simp add: u)
  let ?L = "\<lparr>ArIsSaving = False, ArIsLoading = True, ArIsError = False,
            Bits = map (bit ?w) [0..<?n] @ rest\<rparr>"
  have l: "ArIsLoading ?L" "\<not> ArIsSaving ?L" by simp_all
  show ?thesis
    unfolding SafeNet_loading [OF l assms(1,2)] SerializeBits_roundtrip [OF fit]
    using assms(3) by (simp add: u)
qed

text \<open>The widest count field: 32 bits, here all of them set.\<close>

lemma CeilLogTwo_max_int32: "CeilLogTwo 2147483647 = 31"
  unfolding CeilLogTwo_def by (rule ceillog2_eqI) simp_all

lemma one_bits_int32: "replicate 32 True = map (bit (- 1 :: int32)) [0..<32]"
proof -
  have "map (bit (- 1 :: int32)) [0..<32] = map (\<lambda>_. True) [0..<32]"
    by (rule map_cong) (simp_all add: bit_minus_1_iff)
  then show ?thesis by (simp add: map_replicate_const)
qed

text \<open>
  C7 does not hold for a bound above \<open>2 ^ 30\<close>: the count field then has 32 bits, and a
  field with its highest bit set is a negative \<^verbatim>\<open>int32 ArrayNum\<close>. The signed test
  \<^verbatim>\<open>ArrayNum > MaxNum\<close> does not catch it: the count is not clamped, the success flag is
  left as it was, and \<^verbatim>\<open>AddDefaulted\<close> is called with the negative count. With
  \<open>MaxNum = 2147483647\<close> and a count field of 32 one-bits the function returns \<open>- 1\<close>
  with the flag still true.
\<close>

theorem SafeNetSerializeTArray_HeaderOnly_negative_count:
  "SafeNetSerializeTArray_HeaderOnly 2147483647 (0::nat)
     \<lparr>ArIsSaving = False, ArIsLoading = True, ArIsError = False,
      Bits = replicate 32 True\<rparr> [] True
   = (- 1, \<lparr>ArIsSaving = False, ArIsLoading = True, ArIsError = False, Bits = []\<rparr>,
      None, True)"
proof -
  have "unat (- 1 :: int32) < 2 ^ LENGTH(32)" by (rule unsigned_less)
  then have "unat (- 1 :: int32) < 2 ^ 32" by simp
  from SerializeBits_roundtrip [OF this, of 0 "[]"]
  have sb: "SerializeBits 0 32 \<lparr>ArIsSaving = False, ArIsLoading = True, ArIsError = False,
            Bits = replicate 32 True\<rparr>
         = (- 1, \<lparr>ArIsSaving = False, ArIsLoading = True, ArIsError = False, Bits = []\<rparr>)"
    by (simp add: one_bits_int32)
  show ?thesis
    by (simp add: SafeNetSerializeTArray_HeaderOnly_def sb CeilLogTwo_max_int32
        word_sless_alt Let_def)
qed


section \<open>Properties of the delta header\<close>

lemma ConditionalRebuildItemMap_keeps:
  "Items (ConditionalRebuildItemMap u w A) = Items A"
  "Parms (ConditionalRebuildItemMap u w A) = Parms A"
  "Events (ConditionalRebuildItemMap u w A) = Events A"
  "ArrayReplicationKey (ArraySerializer (ConditionalRebuildItemMap u w A)) =
     ArrayReplicationKey (ArraySerializer A)"
  "ConditionalRebuildItemMap u True A = (if u \<and> TMap_Num (ItemMap (ArraySerializer A)) \<noteq> length (Items A)
     then A\<lparr>ArraySerializer := (ArraySerializer A)\<lparr>ItemMap := RebuildItemMap True (Items A) 0 []\<rparr>\<rparr>
     else A)"
  by (simp_all add: ConditionalRebuildItemMap_def)

lemma ReadDeltaHeader_rejected:
  assumes "Read_int32 R = (ark, R1)" "Read_int32 R1 = (brk, R2)"
    "Read_int32 R2 = (nd, R3)" "Read_int32 R3 = (nc, R4)"
    and "word_sless (MaxNumberOfAllowedDeletionsPerUpdate Limits) nd \<or>
         word_sless (MaxNumberOfAllowedChangesPerUpdate Limits) nc"
  shows "fst (ReadDeltaHeader Limits S Header R) = False \<and>
         IsError (snd (snd (ReadDeltaHeader Limits S Header R)))"
  using assms by (auto simp: ReadDeltaHeader_def Let_def SetError_def)

lemma ReadDeltaHeader_accepted:
  assumes "Read_int32 R = (ark, R1)" "Read_int32 R1 = (brk, R2)"
    "Read_int32 R2 = (nd, R3)" "Read_int32 R3 = (nc, R4)"
    and "\<not> word_sless (MaxNumberOfAllowedDeletionsPerUpdate Limits) nd"
    and "\<not> word_sless (MaxNumberOfAllowedChangesPerUpdate Limits) nc"
  shows "fst (ReadDeltaHeader Limits S Header R) = True"
  using assms by (auto simp: ReadDeltaHeader_def Let_def split: prod.splits)

lemma fold_Write_int32: "fold Write_int32 xs W = W @ xs"
  by (induction xs arbitrary: W) (simp_all add: Write_int32_def)

lemma WriteDeltaHeader_output:
  "fst (WriteDeltaHeader Limits Header W) =
     W @ [Header_ArrayReplicationKey Header, BaseReplicationKey Header,
          word_of_nat (length (DeletedIndices Header)), NumChanged Header]
       @ DeletedIndices Header"
  by (simp add: WriteDeltaHeader_def Let_def fold_Write_int32 Write_int32_def)

lemma WriteDeltaHeader_warnings:
  "snd (WriteDeltaHeader Limits Header W) =
     (if word_sless (MaxNumberOfAllowedDeletionsPerUpdate Limits)
           (word_of_nat (length (DeletedIndices Header)))
      then [NumDeletes_exceeds_max] else [])
     @ (if word_sless (MaxNumberOfAllowedChangesPerUpdate Limits) (NumChanged Header)
        then [NumChanged_exceeds_max] else [])"
  by (simp add: WriteDeltaHeader_def Let_def)

text \<open>
  C5, as stated, fails on the writing side: with at most one deletion allowed, a header
  with two deleted ids is written in full (count 2 and both ids), with a warning only;
  the reader, under the same limit, rejects what was written.
\<close>

theorem delta_limits_write_counterexample:
  "WriteDeltaHeader
     \<lparr>MaxNumberOfAllowedChangesPerUpdate = 2048, MaxNumberOfAllowedDeletionsPerUpdate = 1\<rparr>
     \<lparr>Header_ArrayReplicationKey = 9, BaseReplicationKey = 5, NumChanged = 0,
      DeletedIndices = [4, 6]\<rparr> []
   = ([9, 5, 2, 0, 4, 6], [NumDeletes_exceeds_max]) \<and>
   ReadDeltaHeader
     \<lparr>MaxNumberOfAllowedChangesPerUpdate = 2048, MaxNumberOfAllowedDeletionsPerUpdate = 1\<rparr>
     \<lparr>ItemMap = [(4, 0), (6, 1)], IDCounter = 0, ArrayReplicationKey = 5,
      GuidReferencesMap = [], CachedNumItems = - 1,
      CachedNumItemsToConsiderForWriting = - 1\<rparr>
     \<lparr>Header_ArrayReplicationKey = 0, BaseReplicationKey = 0, NumChanged = 0,
      DeletedIndices = []\<rparr>
     \<lparr>Data = [9, 5, 2, 0, 4, 6], IsError = False\<rparr>
   = (False,
      \<lparr>Header_ArrayReplicationKey = 9, BaseReplicationKey = 5, NumChanged = 0,
       DeletedIndices = []\<rparr>,
      \<lparr>Data = [0, 4, 6], IsError = True\<rparr>)"
  by (simp add: WriteDeltaHeader_def ReadDeltaHeader_def Read_int32_def Write_int32_def
      SetError_def Let_def word_sless_alt)

text \<open>
  C5, amended: the reading branch rejects every delta whose count of deletions or of
  changes, as read from the header, exceeds the configured maximum (signed comparison):
  it returns false with the reader in error, without failing, and leaves the records,
  the events and the array key as they were. The writing side compares the counts to the
  same maxima but only warns: the header written holds the full counts and every
  deleted id, whatever the limits.
\<close>

theorem delta_limits_read_rejects_write_warns:
  "(\<forall>ark brk nd nc R1 R2 R3 R4.
      Read_int32 R = (ark, R1) \<and> Read_int32 R1 = (brk, R2) \<and>
      Read_int32 R2 = (nd, R3) \<and> Read_int32 R3 = (nc, R4) \<and>
      (word_sless (MaxNumberOfAllowedDeletionsPerUpdate Limits) nd \<or>
       word_sless (MaxNumberOfAllowedChangesPerUpdate Limits) nc) \<longrightarrow>
      (\<exists>R' A'. FastArrayDeltaSerialize_Read Limits dec dflt R A = Some (False, R', A') \<and>
               IsError R' \<and> Items A' = Items A \<and> Events A' = Events A \<and>
               ArrayReplicationKey (ArraySerializer A') = ArrayReplicationKey (ArraySerializer A))) \<and>
   fst (WriteDeltaHeader Limits Header W) =
     W @ [Header_ArrayReplicationKey Header, BaseReplicationKey Header,
          word_of_nat (length (DeletedIndices Header)), NumChanged Header]
       @ DeletedIndices Header \<and>
   snd (WriteDeltaHeader Limits Header W) =
     (if word_sless (MaxNumberOfAllowedDeletionsPerUpdate Limits)
           (word_of_nat (length (DeletedIndices Header)))
      then [NumDeletes_exceeds_max] else [])
     @ (if word_sless (MaxNumberOfAllowedChangesPerUpdate Limits) (NumChanged Header)
        then [NumChanged_exceeds_max] else [])"
proof (intro conjI allI impI)
  fix ark brk nd nc R1 R2 R3 R4
  assume a: "Read_int32 R = (ark, R1) \<and> Read_int32 R1 = (brk, R2) \<and>
      Read_int32 R2 = (nd, R3) \<and> Read_int32 R3 = (nc, R4) \<and>
      (word_sless (MaxNumberOfAllowedDeletionsPerUpdate Limits) nd \<or>
       word_sless (MaxNumberOfAllowedChangesPerUpdate Limits) nc)"
  let ?A = "ConditionalRebuildItemMap False False A"
  let ?H0 = "\<lparr>Header_ArrayReplicationKey = 0, BaseReplicationKey = 0, NumChanged = 0,
                DeletedIndices = []\<rparr> :: nat FFastArraySerializerHeader"
  obtain ok H R' where r: "ReadDeltaHeader Limits (ArraySerializer ?A) ?H0 R = (ok, H, R')"
    by (cases "ReadDeltaHeader Limits (ArraySerializer ?A) ?H0 R") auto
  from a have "fst (ReadDeltaHeader Limits (ArraySerializer ?A) ?H0 R) = False \<and>
         IsError (snd (snd (ReadDeltaHeader Limits (ArraySerializer ?A) ?H0 R)))"
    by (intro ReadDeltaHeader_rejected) auto
  with r have ok: "\<not> ok" "IsError R'" by simp_all
  have "FastArrayDeltaSerialize_Read Limits dec dflt R A = Some (False, R', ?A)"
    using r ok by (simp add: FastArrayDeltaSerialize_Read_def Let_def)
  then show "\<exists>R' A'. FastArrayDeltaSerialize_Read Limits dec dflt R A = Some (False, R', A') \<and>
               IsError R' \<and> Items A' = Items A \<and> Events A' = Events A \<and>
               ArrayReplicationKey (ArraySerializer A') = ArrayReplicationKey (ArraySerializer A)"
    using ok(2) by (simp add: ConditionalRebuildItemMap_keeps)
qed (simp_all add: WriteDeltaHeader_output WriteDeltaHeader_warnings)

theorem delta_limits_read_rejects_write_warns_witness:
  "\<exists>R' A'. FastArrayDeltaSerialize_Read
       \<lparr>MaxNumberOfAllowedChangesPerUpdate = 2048, MaxNumberOfAllowedDeletionsPerUpdate = 1\<rparr>
       (\<lambda>p R. (p, R, {}, {})) ()
       \<lparr>Data = [9, 5, 2, 0, 4, 6], IsError = False\<rparr>
       \<lparr>Items = [\<lparr>ReplicationID = 4, ReplicationKey = 1,
                  MostRecentArrayReplicationKey = 5, Payload = ()\<rparr>,
                 \<lparr>ReplicationID = 6, ReplicationKey = 1,
                  MostRecentArrayReplicationKey = 5, Payload = ()\<rparr>],
        ArraySerializer = \<lparr>ItemMap = [(4, 0), (6, 1)], IDCounter = 0, ArrayReplicationKey = 5,
          GuidReferencesMap = [], CachedNumItems = - 1,
          CachedNumItemsToConsiderForWriting = - 1\<rparr>,
        Parms = \<lparr>bInternalAck = False, bIsWritingOnClient = False, bGuidListsChanged = False,
          bOutHasMoreUnmapped = False, OldState = None, NewState = None\<rparr>,
        Events = []\<rparr> = Some (False, R', A') \<and>
     IsError R' \<and>
     Items A' = [\<lparr>ReplicationID = 4, ReplicationKey = 1,
                  MostRecentArrayReplicationKey = 5, Payload = ()\<rparr>,
                 \<lparr>ReplicationID = 6, ReplicationKey = 1,
                  MostRecentArrayReplicationKey = 5, Payload = ()\<rparr>]"
proof -
  let ?L = "\<lparr>MaxNumberOfAllowedChangesPerUpdate = 2048,
             MaxNumberOfAllowedDeletionsPerUpdate = 1\<rparr>"
  let ?R = "\<lparr>Data = [9, 5, 2, 0, 4, 6], IsError = False\<rparr>"
  have h: "Read_int32 ?R = (9, \<lparr>Data = [5, 2, 0, 4, 6], IsError = False\<rparr>) \<and>
      Read_int32 \<lparr>Data = [5, 2, 0, 4, 6], IsError = False\<rparr>
        = (5, \<lparr>Data = [2, 0, 4, 6], IsError = False\<rparr>) \<and>
      Read_int32 \<lparr>Data = [2, 0, 4, 6], IsError = False\<rparr>
        = (2, \<lparr>Data = [0, 4, 6], IsError = False\<rparr>) \<and>
      Read_int32 \<lparr>Data = [0, 4, 6], IsError = False\<rparr>
        = (0, \<lparr>Data = [4, 6], IsError = False\<rparr>) \<and>
      (word_sless (MaxNumberOfAllowedDeletionsPerUpdate ?L) 2 \<or>
       word_sless (MaxNumberOfAllowedChangesPerUpdate ?L) 0)"
    by (simp add: Read_int32_def word_sless_alt)
  let ?A = "\<lparr>Items = [\<lparr>ReplicationID = 4, ReplicationKey = 1,
                  MostRecentArrayReplicationKey = 5, Payload = ()\<rparr>,
                 \<lparr>ReplicationID = 6, ReplicationKey = 1,
                  MostRecentArrayReplicationKey = 5, Payload = ()\<rparr>],
        ArraySerializer = \<lparr>ItemMap = [(4, 0), (6, 1)], IDCounter = 0, ArrayReplicationKey = 5,
          GuidReferencesMap = [], CachedNumItems = - 1,
          CachedNumItemsToConsiderForWriting = - 1\<rparr>,
        Parms = \<lparr>bInternalAck = False, bIsWritingOnClient = False, bGuidListsChanged = False,
          bOutHasMoreUnmapped = False, OldState = None, NewState = None\<rparr>,
        Events = []\<rparr>"
  from delta_limits_read_rejects_write_warns
         [where R = ?R and Limits = ?L and A = ?A and dflt = "()"
            and dec = "\<lambda>p R. (p, R, {}, {})", THEN conjunct1, rule_format, OF h]
  show ?thesis by simp blast
qed


section \<open>Properties of the sending loop\<close>

lemma TMap_Contains_iff: "TMap_Contains m k \<longleftrightarrow> k \<in> fst ` set m"
  by (simp add: TMap_Contains_def TMap_Find_def map_of_eq_None_iff)

lemma TMap_Add_keys: "fst ` set (TMap_Add k v m) = insert k (fst ` set m)"
  by (simp add: TMap_Add_def dom_update)

lemma ShouldWrite_MarkItemDirty:
  "ShouldWriteFastArrayItem x bc \<Longrightarrow> ReplicationID x = INDEX_NONE \<Longrightarrow>
   ShouldWriteFastArrayItem (snd (MarkItemDirty S x)) bc"
  by (simp add: ShouldWriteFastArrayItem_def)

lemma BuildChanged_result:
  "\<exists>S' ys NM'.
     BuildChanged bc Old xs i (S, done, NM, Ch, DC) =
       (S', done @ ys, NM',
        Ch @ map (\<lambda>(k, y). (k, ReplicationID y))
               (filter (\<lambda>(k, y). ShouldWriteFastArrayItem y bc \<and> ItemChanged Old y)
                  (enumerate i ys)),
        DC + int (length (filter (\<lambda>y. ShouldWriteFastArrayItem y bc \<and> ItemNew Old y) ys))) \<and>
     list_all2 (ItemVisited bc) xs ys \<and>
     fst ` set NM' = fst ` set NM \<union> ReplicationID ` {y \<in> set ys. ShouldWriteFastArrayItem y bc}"
proof (induction xs arbitrary: i S "done" NM Ch DC)
  case Nil
  show ?case by simp
next
  case (Cons x xs)
  show ?case
  proof (cases "ShouldWriteFastArrayItem x bc")
    case False
    from Cons.IH [of "Suc i" S "done @ [x]" NM Ch DC] obtain S' ys NM' where
      ih: "BuildChanged bc Old xs (Suc i) (S, (done @ [x]), NM, Ch, DC) =
       (S', (done @ [x]) @ ys, NM',
        Ch @ map (\<lambda>(k, y). (k, ReplicationID y))
               (filter (\<lambda>(k, y). ShouldWriteFastArrayItem y bc \<and> ItemChanged Old y)
                  (enumerate (Suc i) ys)),
        DC + int (length (filter (\<lambda>y. ShouldWriteFastArrayItem y bc \<and> ItemNew Old y) ys)))"
      "list_all2 (ItemVisited bc) xs ys"
      "fst ` set NM' = fst ` set NM \<union> ReplicationID ` {y \<in> set ys. ShouldWriteFastArrayItem y bc}"
      by blast
    have v: "ItemVisited bc x x" using False by (simp add: ItemVisited_def)
    show ?thesis
      apply (intro exI [of _ S'] exI [of _ "x # ys"] exI [of _ NM'] conjI)
      using False ih v by auto
  next
    case True
    obtain S1 y where m: "(if ReplicationID x = INDEX_NONE then MarkItemDirty S x else (S, x)) = (S1, y)"
      by (cases "if ReplicationID x = INDEX_NONE then MarkItemDirty S x else (S, x)") auto
    have v: "ItemVisited bc x y"
    proof (cases "ReplicationID x = INDEX_NONE")
      case n: True
      with m have y: "y = snd (MarkItemDirty S x)" by (metis snd_conv)
      have "ShouldWriteFastArrayItem y bc" unfolding y using True n by (rule ShouldWrite_MarkItemDirty)
      then show ?thesis using True n y by (auto simp: ItemVisited_def)
    next
      case False
      with m have "y = x" by simp
      then show ?thesis using True False by (simp add: ItemVisited_def)
    qed
    then have sy: "ShouldWriteFastArrayItem y bc" using True by (simp add: ItemVisited_def)
    let ?NM1 = "TMap_Add (ReplicationID y) (ReplicationKey y) NM"
    let ?Ch1 = "if ItemChanged Old y then Ch @ [(i, ReplicationID y)] else Ch"
    let ?DC1 = "if ItemNew Old y then DC + 1 else DC"
    have step: "BuildChanged bc Old (x # xs) i (S, done, NM, Ch, DC) =
        BuildChanged bc Old xs (Suc i) (S1, done @ [y], ?NM1, ?Ch1, ?DC1)"
      using True m
      by (cases Old) (auto simp: Let_def ItemChanged_def ItemNew_def split: option.splits)
    from Cons.IH [of "Suc i" S1 "done @ [y]" ?NM1 ?Ch1 ?DC1] obtain S' ys NM' where
      ih: "BuildChanged bc Old xs (Suc i) (S1, (done @ [y]), ?NM1, ?Ch1, ?DC1) =
       (S', (done @ [y]) @ ys, NM',
        ?Ch1 @ map (\<lambda>(k, y). (k, ReplicationID y))
               (filter (\<lambda>(k, y). ShouldWriteFastArrayItem y bc \<and> ItemChanged Old y)
                  (enumerate (Suc i) ys)),
        ?DC1 + int (length (filter (\<lambda>y. ShouldWriteFastArrayItem y bc \<and> ItemNew Old y) ys)))"
      "list_all2 (ItemVisited bc) xs ys"
      "fst ` set NM' = fst ` set ?NM1 \<union> ReplicationID ` {y \<in> set ys. ShouldWriteFastArrayItem y bc}"
      by blast
    show ?thesis
      apply (intro exI [of _ S'] exI [of _ "y # ys"] exI [of _ NM'] conjI)
      subgoal unfolding step ih(1) using sy by simp
      subgoal using ih(2) v by simp
      subgoal using ih(3) sy by (auto simp: TMap_Add_keys)
      done
  qed
qed

lemma FindDeleted_set:
  "set (FindDeleted rest New DC Del) \<subseteq> set Del \<union> {k \<in> fst ` set rest. \<not> TMap_Contains New k}"
proof (induction rest arbitrary: DC Del)
  case Nil
  show ?case by simp
next
  case (Cons p rest)
  obtain k v where p: "p = (k, v)" by (cases p)
  show ?case
    using Cons.IH [of DC Del] Cons.IH [of "DC - 1" "Del @ [k]"]
    unfolding p by (auto split: if_splits)
qed

lemma FindDeleted_length:
  "0 < DC \<Longrightarrow> int (length (FindDeleted rest New DC Del)) \<le> int (length Del) + DC"
proof (induction rest arbitrary: DC Del)
  case Nil
  then show ?case by simp
next
  case (Cons p rest)
  obtain k v where p: "p = (k, v)" by (cases p)
  show ?case
  proof (cases "TMap_Contains New k")
    case True
    then show ?thesis using Cons.IH [OF Cons.prems, of Del] by (simp add: p)
  next
    case False
    show ?thesis
    proof (cases "DC - 1 \<le> 0")
      case True
      then show ?thesis using False Cons.prems by (simp add: p)
    next
      case nz: False
      then have "0 < DC - 1" by simp
      from Cons.IH [OF this, of "Del @ [k]"] show ?thesis using False nz by (simp add: p)
    qed
  qed
qed

lemma FindDeleted_take:
  "0 < DC \<Longrightarrow>
   FindDeleted rest New DC Del =
     Del @ take (nat DC) (filter (\<lambda>k. \<not> TMap_Contains New k) (map fst rest))"
proof (induction rest arbitrary: DC Del)
  case Nil
  show ?case by simp
next
  case (Cons p rest)
  obtain k v where p: "p = (k, v)" by (cases p)
  show ?case
  proof (cases "TMap_Contains New k")
    case True
    then show ?thesis using Cons.IH [OF Cons.prems, of Del] by (simp add: p)
  next
    case False
    show ?thesis
    proof (cases "DC - 1 \<le> 0")
      case True
      with Cons.prems have "DC = 1" by simp
      then show ?thesis using False by (simp add: p)
    next
      case nz: False
      then have pos: "0 < DC - 1" by simp
      have n: "nat DC = Suc (nat (DC - 1))" using pos by simp
      from Cons.IH [OF pos, of "Del @ [k]"] show ?thesis
        using False nz by (simp add: p n)
    qed
  qed
qed

lemma list_all2_ItemVisited_filter_length:
  "list_all2 (ItemVisited bc) xs ys \<Longrightarrow>
   length (filter (\<lambda>y. ShouldWriteFastArrayItem y bc) ys) =
   length (filter (\<lambda>x. ShouldWriteFastArrayItem x bc) xs)"
  by (induction rule: list_all2_induct) (auto simp: ItemVisited_def)

lemma BuildChanged_result_init:
  "\<exists>S' ys NM'.
     BuildChanged bc Old xs 0 (S, [], [], [], DC) =
       (S', ys, NM',
        map (\<lambda>(k, y). (k, ReplicationID y))
          (filter (\<lambda>(k, y). ShouldWriteFastArrayItem y bc \<and> ItemChanged Old y)
             (enumerate 0 ys)),
        DC + int (length (filter (\<lambda>y. ShouldWriteFastArrayItem y bc \<and> ItemNew Old y) ys))) \<and>
     list_all2 (ItemVisited bc) xs ys \<and>
     fst ` set NM' = ReplicationID ` {y \<in> set ys. ShouldWriteFastArrayItem y bc}"
  using BuildChanged_result [of bc Old xs 0 S "[]" "[]" "[]" DC] by simp

text \<open>
  C1: for a walk with an old map, starting from empty buffers as the serializer calls
  it. The array keeps its length; a considered record without id is marked dirty, every
  other record is left as it is. The changed elements are exactly the pairs of a
  position and the id of the record there, for the positions of considered records whose
  id is not in the old map or is there with another key than the record's (a record
  with the old key is skipped). The new map holds the ids of the considered records.
  Every deleted id is in the old map and not in the new one, and the deleted ids are at
  most as many as the delete count when that is positive, and none otherwise: the
  number of pairs of the old map, minus the number of positions that hold a considered
  record, plus the number of positions that hold a considered record whose id is not in
  the old map. The deleted ids are, precisely, the first so many (the delete count) of
  the ids of the old map that the new map lacks, in the order of the old map.
\<close>

theorem BuildChangedAndDeletedBuffers_classification:
  assumes "BuildChangedAndDeletedBuffers [] (Some Old) [] [] A = (A', NewMap, Changed, Deleted)"
  shows "length (Items A') = length (Items A) \<and>
    (\<forall>k ID. (k, ID) \<in> set Changed \<longleftrightarrow>
        k < length (Items A) \<and>
        ShouldWriteFastArrayItem (Items A ! k) (bIsWritingOnClient (Parms A)) \<and>
        ID = ReplicationID (Items A' ! k) \<and>
        TMap_Find Old (ReplicationID (Items A' ! k)) \<noteq> Some (ReplicationKey (Items A' ! k))) \<and>
    (\<forall>k < length (Items A).
        (ShouldWriteFastArrayItem (Items A ! k) (bIsWritingOnClient (Parms A)) \<and>
         ReplicationID (Items A ! k) = INDEX_NONE
           \<longrightarrow> (\<exists>S. Items A' ! k = snd (MarkItemDirty S (Items A ! k)))) \<and>
        (\<not> ShouldWriteFastArrayItem (Items A ! k) (bIsWritingOnClient (Parms A)) \<or>
         ReplicationID (Items A ! k) \<noteq> INDEX_NONE
           \<longrightarrow> Items A' ! k = Items A ! k)) \<and>
    fst ` set NewMap =
      ReplicationID ` {y \<in> set (Items A').
                        ShouldWriteFastArrayItem y (bIsWritingOnClient (Parms A))} \<and>
    (\<forall>ID \<in> set Deleted. TMap_Contains Old ID \<and> \<not> TMap_Contains NewMap ID) \<and>
    int (length Deleted) \<le>
      max 0 (int (length Old)
             - int (card {k. k < length (Items A) \<and>
                             ShouldWriteFastArrayItem (Items A ! k) (bIsWritingOnClient (Parms A))})
             + int (card {k. k < length (Items A') \<and>
                             ShouldWriteFastArrayItem (Items A' ! k) (bIsWritingOnClient (Parms A)) \<and>
                             TMap_Find Old (ReplicationID (Items A' ! k)) = None})) \<and>
    Deleted =
      take (nat (int (length Old)
             - int (card {k. k < length (Items A) \<and>
                             ShouldWriteFastArrayItem (Items A ! k) (bIsWritingOnClient (Parms A))})
             + int (card {k. k < length (Items A') \<and>
                             ShouldWriteFastArrayItem (Items A' ! k) (bIsWritingOnClient (Parms A)) \<and>
                             TMap_Find Old (ReplicationID (Items A' ! k)) = None})))
        (filter (\<lambda>ID. ID \<notin> fst ` set NewMap) (map fst Old))"
proof -
  let ?bc = "bIsWritingOnClient (Parms A)"
  let ?DCi = "int (TMap_Num Old) - CalcNumItemsForConsideration A"
  from BuildChanged_result_init [of ?bc "Some Old" "Items A" "ArraySerializer A" ?DCi]
  obtain S' ys NM' where
    r: "BuildChanged ?bc (Some Old) (Items A) 0 (ArraySerializer A, [], [], [], ?DCi) =
       (S', ys, NM',
        map (\<lambda>(k, y). (k, ReplicationID y))
               (filter (\<lambda>(k, y). ShouldWriteFastArrayItem y ?bc \<and> ItemChanged (Some Old) y)
                  (enumerate 0 ys)),
        ?DCi + int (length (filter (\<lambda>y. ShouldWriteFastArrayItem y ?bc \<and> ItemNew (Some Old) y) ys)))"
    and v: "list_all2 (ItemVisited ?bc) (Items A) ys"
    and nm: "fst ` set NM' = ReplicationID ` {y \<in> set ys. ShouldWriteFastArrayItem y ?bc}"
    by (elim exE conjE)
  let ?DC = "?DCi + int (length (filter (\<lambda>y. ShouldWriteFastArrayItem y ?bc \<and> ItemNew (Some Old) y) ys))"
  let ?Ch = "map (\<lambda>(k, y). (k, ReplicationID y))
               (filter (\<lambda>(k, y). ShouldWriteFastArrayItem y ?bc \<and> ItemChanged (Some Old) y)
                  (enumerate 0 ys))"
  let ?Del = "if 0 < ?DC then FindDeleted Old NM' ?DC [] else []"
  have res: "BuildChangedAndDeletedBuffers [] (Some Old) [] [] A =
      (A\<lparr>Items := ys, ArraySerializer := S'\<rparr>, NM', ?Ch, ?Del)"
    using r by (simp add: BuildChangedAndDeletedBuffers_def Let_def)
  with assms have eq: "A' = A\<lparr>Items := ys, ArraySerializer := S'\<rparr>" "NewMap = NM'"
    "Changed = ?Ch" "Deleted = ?Del" by simp_all
  have its: "Items A' = ys" using eq(1) by simp
  have len: "length ys = length (Items A)" using v by (simp add: list_all2_lengthD)
  have c1: "length (Items A') = length (Items A)" using its len by simp
  have vk: "\<And>k. k < length (Items A) \<Longrightarrow> ItemVisited ?bc (Items A ! k) (ys ! k)"
    using v by (simp add: list_all2_conv_all_nth)
  have c2: "\<forall>k ID. (k, ID) \<in> set Changed \<longleftrightarrow>
        k < length (Items A) \<and> ShouldWriteFastArrayItem (Items A ! k) ?bc \<and>
        ID = ReplicationID (Items A' ! k) \<and>
        TMap_Find Old (ReplicationID (Items A' ! k)) \<noteq> Some (ReplicationKey (Items A' ! k))"
  proof (intro allI iffI)
    fix k ID assume "(k, ID) \<in> set Changed"
    then obtain y where y: "(k, y) \<in> set (enumerate 0 ys)" "ShouldWriteFastArrayItem y ?bc"
        "ItemChanged (Some Old) y" "ID = ReplicationID y"
      unfolding eq(3) by auto
    from y(1) have k: "k < length ys" "y = ys ! k" by (auto simp: in_set_enumerate_eq)
    from vk [of k] k len y(2) have "ShouldWriteFastArrayItem (Items A ! k) ?bc"
      by (simp add: ItemVisited_def)
    then show "k < length (Items A) \<and> ShouldWriteFastArrayItem (Items A ! k) ?bc \<and>
        ID = ReplicationID (Items A' ! k) \<and>
        TMap_Find Old (ReplicationID (Items A' ! k)) \<noteq> Some (ReplicationKey (Items A' ! k))"
      using k len y(3,4) its by (simp add: ItemChanged_def)
  next
    fix k ID assume a: "k < length (Items A) \<and> ShouldWriteFastArrayItem (Items A ! k) ?bc \<and>
        ID = ReplicationID (Items A' ! k) \<and>
        TMap_Find Old (ReplicationID (Items A' ! k)) \<noteq> Some (ReplicationKey (Items A' ! k))"
    then have k: "k < length ys" using len by simp
    then have m: "(k, ys ! k) \<in> set (enumerate 0 ys)" by (simp add: in_set_enumerate_eq)
    from vk [of k] a have s: "ShouldWriteFastArrayItem (ys ! k) ?bc" by (simp add: ItemVisited_def)
    have ch: "ItemChanged (Some Old) (ys ! k)" using a its by (simp add: ItemChanged_def)
    have "(k, ys ! k) \<in> set (filter (\<lambda>(k, y). ShouldWriteFastArrayItem y ?bc \<and>
        ItemChanged (Some Old) y) (enumerate 0 ys))"
      using m s ch by simp
    then have "(\<lambda>(k, y). (k, ReplicationID y)) (k, ys ! k) \<in> set ?Ch"
      unfolding set_map by (rule imageI)
    then have "(k, ReplicationID (ys ! k)) \<in> set ?Ch" by simp
    then show "(k, ID) \<in> set Changed" using a its eq(3) by simp
  qed
  have c3: "\<forall>k < length (Items A).
        (ShouldWriteFastArrayItem (Items A ! k) ?bc \<and> ReplicationID (Items A ! k) = INDEX_NONE
           \<longrightarrow> (\<exists>S. Items A' ! k = snd (MarkItemDirty S (Items A ! k)))) \<and>
        (\<not> ShouldWriteFastArrayItem (Items A ! k) ?bc \<or> ReplicationID (Items A ! k) \<noteq> INDEX_NONE
           \<longrightarrow> Items A' ! k = Items A ! k)"
    using vk its by (simp add: ItemVisited_def)
  have c4: "fst ` set NewMap = ReplicationID ` {y \<in> set (Items A'). ShouldWriteFastArrayItem y ?bc}"
    using nm eq(2) its by simp
  have c5: "\<forall>ID \<in> set Deleted. TMap_Contains Old ID \<and> \<not> TMap_Contains NewMap ID"
  proof
    fix ID assume "ID \<in> set Deleted"
    then have "ID \<in> set (FindDeleted Old NM' ?DC [])"
      unfolding eq(4) by (simp split: if_splits)
    with FindDeleted_set [of Old NM' ?DC "[]"]
    have "ID \<in> fst ` set Old \<and> \<not> TMap_Contains NM' ID" by auto
    then show "TMap_Contains Old ID \<and> \<not> TMap_Contains NewMap ID"
      using eq(2) by (simp add: TMap_Contains_iff)
  qed
  have new: "(\<lambda>y. ShouldWriteFastArrayItem y ?bc \<and> ItemNew (Some Old) y) =
      (\<lambda>y. ShouldWriteFastArrayItem y ?bc \<and> TMap_Find Old (ReplicationID y) = None)"
    by (simp add: ItemNew_def)
  have c6': "int (length Deleted) \<le>
      max 0 (?DCi + int (length (filter (\<lambda>y. ShouldWriteFastArrayItem y ?bc \<and>
                                         TMap_Find Old (ReplicationID y) = None) (Items A'))))"
  proof (cases "0 < ?DC")
    case True
    from FindDeleted_length [OF True, of Old NM' "[]"]
    show ?thesis using True unfolding eq(4) its new by simp
  next
    case False
    then show ?thesis unfolding eq(4) by simp
  qed
  have cnt: "?DCi = int (length Old)
      - int (card {k. k < length (Items A) \<and> ShouldWriteFastArrayItem (Items A ! k) ?bc})"
    by (simp add: CalcNumItemsForConsideration_def TMap_Num_def length_filter_conv_card)
  have cntnew: "length (filter (\<lambda>y. ShouldWriteFastArrayItem y ?bc \<and>
                                  TMap_Find Old (ReplicationID y) = None) (Items A')) =
      card {k. k < length (Items A') \<and> ShouldWriteFastArrayItem (Items A' ! k) ?bc \<and>
               TMap_Find Old (ReplicationID (Items A' ! k)) = None}"
    by (simp add: length_filter_conv_card)
  have c6: "int (length Deleted) \<le>
      max 0 (int (length Old)
             - int (card {k. k < length (Items A) \<and> ShouldWriteFastArrayItem (Items A ! k) ?bc})
             + int (card {k. k < length (Items A') \<and> ShouldWriteFastArrayItem (Items A' ! k) ?bc \<and>
                             TMap_Find Old (ReplicationID (Items A' ! k)) = None}))"
    using c6' unfolding cnt cntnew .
  have c7': "Deleted =
      take (nat (?DCi + int (length (filter (\<lambda>y. ShouldWriteFastArrayItem y ?bc \<and>
                                         TMap_Find Old (ReplicationID y) = None) (Items A')))))
        (filter (\<lambda>ID. ID \<notin> fst ` set NewMap) (map fst Old))"
  proof (cases "0 < ?DC")
    case True
    from FindDeleted_take [OF True, of Old NM' "[]"]
    show ?thesis using True unfolding eq(4) its new eq(2) by (simp add: TMap_Contains_iff)
  next
    case False
    then show ?thesis unfolding eq(4) its new by simp
  qed
  have c7: "Deleted =
      take (nat (int (length Old)
             - int (card {k. k < length (Items A) \<and> ShouldWriteFastArrayItem (Items A ! k) ?bc})
             + int (card {k. k < length (Items A') \<and> ShouldWriteFastArrayItem (Items A' ! k) ?bc \<and>
                             TMap_Find Old (ReplicationID (Items A' ! k)) = None})))
        (filter (\<lambda>ID. ID \<notin> fst ` set NewMap) (map fst Old))"
    using c7' unfolding cnt cntnew .
  show ?thesis
    by (intro conjI c1 c2 c3 c4 c5 c6 c7)
qed

lemma BuildChangedAndDeletedBuffers_example: "BuildChangedAndDeletedBuffers [] (Some [(1, 1), (2, 5), (3, 2)]) [] []
   \<lparr>Items = [\<lparr>ReplicationID = 1, ReplicationKey = 1,
                MostRecentArrayReplicationKey = - 1, Payload = ()\<rparr>,
             \<lparr>ReplicationID = 2, ReplicationKey = 6,
                MostRecentArrayReplicationKey = - 1, Payload = ()\<rparr>,
             \<lparr>ReplicationID = - 1, ReplicationKey = - 1,
                MostRecentArrayReplicationKey = - 1, Payload = ()\<rparr>],
    ArraySerializer = \<lparr>ItemMap = [], IDCounter = 3, ArrayReplicationKey = 7,
       GuidReferencesMap = [], CachedNumItems = - 1,
       CachedNumItemsToConsiderForWriting = - 1\<rparr>,
    Parms = \<lparr>bInternalAck = False, bIsWritingOnClient = False, bGuidListsChanged = False,
       bOutHasMoreUnmapped = False, OldState = Some 0, NewState = None\<rparr>,
    Events = []\<rparr> =
   (\<lparr>Items = [\<lparr>ReplicationID = 1, ReplicationKey = 1,
                MostRecentArrayReplicationKey = - 1, Payload = ()\<rparr>,
             \<lparr>ReplicationID = 2, ReplicationKey = 6,
                MostRecentArrayReplicationKey = - 1, Payload = ()\<rparr>,
             \<lparr>ReplicationID = 4, ReplicationKey = 0,
                MostRecentArrayReplicationKey = - 1, Payload = ()\<rparr>],
    ArraySerializer = \<lparr>ItemMap = [], IDCounter = 4, ArrayReplicationKey = 8,
       GuidReferencesMap = [], CachedNumItems = - 1,
       CachedNumItemsToConsiderForWriting = - 1\<rparr>,
    Parms = \<lparr>bInternalAck = False, bIsWritingOnClient = False, bGuidListsChanged = False,
       bOutHasMoreUnmapped = False, OldState = Some 0, NewState = None\<rparr>,
    Events = []\<rparr>, [(1, 1), (2, 6), (4, 0)], [(1, 2), (2, 4)], [3])"
  by (simp add: BuildChangedAndDeletedBuffers_def CalcNumItemsForConsideration_def
      ShouldWriteFastArrayItem_def MarkItemDirty_def MarkArrayDirty_def
      IncrementArrayReplicationKey_def INDEX_NONE_def TMap_Add_def TMap_Find_def TMap_Num_def
      TMap_Contains_def Let_def)

theorem BuildChangedAndDeletedBuffers_classification_witness:
  "BuildChangedAndDeletedBuffers [] (Some [(1, 1), (2, 5), (3, 2)]) [] []
   \<lparr>Items = [\<lparr>ReplicationID = 1, ReplicationKey = 1,
                MostRecentArrayReplicationKey = - 1, Payload = ()\<rparr>,
             \<lparr>ReplicationID = 2, ReplicationKey = 6,
                MostRecentArrayReplicationKey = - 1, Payload = ()\<rparr>,
             \<lparr>ReplicationID = - 1, ReplicationKey = - 1,
                MostRecentArrayReplicationKey = - 1, Payload = ()\<rparr>],
    ArraySerializer = \<lparr>ItemMap = [], IDCounter = 3, ArrayReplicationKey = 7,
       GuidReferencesMap = [], CachedNumItems = - 1,
       CachedNumItemsToConsiderForWriting = - 1\<rparr>,
    Parms = \<lparr>bInternalAck = False, bIsWritingOnClient = False, bGuidListsChanged = False,
       bOutHasMoreUnmapped = False, OldState = Some 0, NewState = None\<rparr>,
    Events = []\<rparr> =
   (\<lparr>Items = [\<lparr>ReplicationID = 1, ReplicationKey = 1,
                MostRecentArrayReplicationKey = - 1, Payload = ()\<rparr>,
             \<lparr>ReplicationID = 2, ReplicationKey = 6,
                MostRecentArrayReplicationKey = - 1, Payload = ()\<rparr>,
             \<lparr>ReplicationID = 4, ReplicationKey = 0,
                MostRecentArrayReplicationKey = - 1, Payload = ()\<rparr>],
    ArraySerializer = \<lparr>ItemMap = [], IDCounter = 4, ArrayReplicationKey = 8,
       GuidReferencesMap = [], CachedNumItems = - 1,
       CachedNumItemsToConsiderForWriting = - 1\<rparr>,
    Parms = \<lparr>bInternalAck = False, bIsWritingOnClient = False, bGuidListsChanged = False,
       bOutHasMoreUnmapped = False, OldState = Some 0, NewState = None\<rparr>,
    Events = []\<rparr>, [(1, 1), (2, 6), (4, 0)], [(1, 2), (2, 4)], [3]) \<and>
   TMap_Contains [(1, 1), (2, 5), (3, 2 :: int32)] 3 \<and>
   \<not> TMap_Contains [(1, 1), (2, 6), (4, 0 :: int32)] 3 \<and>
   fst ` set [(1, 1), (2, 6), (4, 0 :: int32)] = {1, 2, 4 :: int32}"
proof -
  note e = BuildChangedAndDeletedBuffers_example
  from BuildChangedAndDeletedBuffers_classification [OF e]
  have "fst ` set [(1, 1), (2, 6), (4, 0 :: int32)] =
          ReplicationID ` {y \<in> set [\<lparr>ReplicationID = 1, ReplicationKey = 1,
                MostRecentArrayReplicationKey = - 1, Payload = ()\<rparr>,
             \<lparr>ReplicationID = 2, ReplicationKey = 6,
                MostRecentArrayReplicationKey = - 1, Payload = ()\<rparr>,
             \<lparr>ReplicationID = 4, ReplicationKey = 0,
                MostRecentArrayReplicationKey = - 1, Payload = ()\<rparr>].
              ShouldWriteFastArrayItem y False}"
    and "\<forall>ID \<in> set [3]. TMap_Contains [(1, 1), (2, 5), (3, 2 :: int32)] ID \<and>
            \<not> TMap_Contains [(1, 1), (2, 6), (4, 0 :: int32)] ID"
    by simp_all
  then show ?thesis using e by (auto simp: ShouldWriteFastArrayItem_def)
qed


section \<open>Properties of the unchanged-key shortcut\<close>

text \<open>
  \<^verbatim>\<open>ConditionalCreateNewDeltaState\<close> on its own, when the array key equals the base key:
  it returns false; with an old state the new state is that very state (the same
  address) and the store is unchanged, without one a state with an empty map and the
  current array key is appended to the store and becomes the new state.
\<close>

lemma ConditionalCreateNewDeltaState_equal_keys:
  assumes "ArrayReplicationKey (ArraySerializer A) = BaseKey"
  shows "\<exists>A'. ConditionalCreateNewDeltaState OldIDToKeyMap BaseKey States A =
               (False,
                (case OldState (Parms A) of
                   Some old \<Rightarrow> States
                 | None \<Rightarrow> States @ [\<lparr>IDToCLMap = [], BaseState_ArrayReplicationKey =
                                        ArrayReplicationKey (ArraySerializer A)\<rparr>]),
                A') \<and>
             NewState (Parms A') =
               (case OldState (Parms A) of Some old \<Rightarrow> Some old | None \<Rightarrow> Some (length States)) \<and>
             Items A' = Items A \<and> Events A' = Events A \<and>
             ArrayReplicationKey (ArraySerializer A') = ArrayReplicationKey (ArraySerializer A)"
  using assms
  by (cases "OldState (Parms A)") (simp_all add: ConditionalCreateNewDeltaState_def Let_def)

text \<open>
  The writing branch without an old map: every considered record is a changed element
  and no id is deleted; and what the loop over the changed elements writes, each id
  followed by the record as the per-record encoder writes it.
\<close>

lemma WriteChangedElements_Some:
  "\<forall>p\<in>set Ch. fst p < length xs \<Longrightarrow>
   WriteChangedElements enc xs Ch W =
     Some (fold (\<lambda>(idx, ID) W. enc (Payload (xs ! idx)) (W @ [ID])) Ch W)"
proof (induction Ch arbitrary: W)
  case Nil
  show ?case by simp
next
  case (Cons p Ch)
  obtain idx ID where p: "p = (idx, ID)" by (cases p)
  from Cons.prems have "idx < length xs" and r: "\<forall>p\<in>set Ch. fst p < length xs"
    by (simp_all add: p)
  with Cons.IH [OF r] show ?case by (simp add: p Write_int32_def)
qed

lemma BuildChangedAndDeletedBuffers_no_old:
  "\<exists>A' NewMap Changed.
     BuildChangedAndDeletedBuffers [] None [] [] A = (A', NewMap, Changed, []) \<and>
     length (Items A') = length (Items A) \<and>
     Parms A' = Parms A \<and>
     (\<forall>k ID. (k, ID) \<in> set Changed \<longleftrightarrow>
        k < length (Items A) \<and>
        ShouldWriteFastArrayItem (Items A ! k) (bIsWritingOnClient (Parms A)) \<and>
        ID = ReplicationID (Items A' ! k)) \<and>
     fst ` set NewMap =
       ReplicationID ` {y \<in> set (Items A').
                         ShouldWriteFastArrayItem y (bIsWritingOnClient (Parms A))}"
proof -
  let ?bc = "bIsWritingOnClient (Parms A)"
  let ?DCi = "0 - CalcNumItemsForConsideration A"
  from BuildChanged_result_init [of ?bc None "Items A" "ArraySerializer A" ?DCi]
  obtain S' ys NM' where
    r: "BuildChanged ?bc None (Items A) 0 (ArraySerializer A, [], [], [], ?DCi) =
       (S', ys, NM',
        map (\<lambda>(k, y). (k, ReplicationID y))
               (filter (\<lambda>(k, y). ShouldWriteFastArrayItem y ?bc \<and> ItemChanged None y)
                  (enumerate 0 ys)),
        ?DCi + int (length (filter (\<lambda>y. ShouldWriteFastArrayItem y ?bc \<and> ItemNew None y) ys)))"
    and v: "list_all2 (ItemVisited ?bc) (Items A) ys"
    and nm: "fst ` set NM' = ReplicationID ` {y \<in> set ys. ShouldWriteFastArrayItem y ?bc}"
    by (elim exE conjE)
  let ?Ch = "map (\<lambda>(k, y). (k, ReplicationID y))
               (filter (\<lambda>(k, y). ShouldWriteFastArrayItem y ?bc \<and> ItemChanged None y)
                  (enumerate 0 ys))"
  let ?A' = "A\<lparr>Items := ys, ArraySerializer := S'\<rparr>"
  have res: "BuildChangedAndDeletedBuffers [] None [] [] A = (?A', NM', ?Ch, [])"
    using r by (simp add: BuildChangedAndDeletedBuffers_def Let_def)
  have len: "length ys = length (Items A)" using v by (simp add: list_all2_lengthD)
  have vk: "\<And>k. k < length (Items A) \<Longrightarrow> ItemVisited ?bc (Items A ! k) (ys ! k)"
    using v by (simp add: list_all2_conv_all_nth)
  have c2: "\<forall>k ID. (k, ID) \<in> set ?Ch \<longleftrightarrow>
        k < length (Items A) \<and> ShouldWriteFastArrayItem (Items A ! k) ?bc \<and>
        ID = ReplicationID (Items ?A' ! k)"
  proof (intro allI iffI)
    fix k ID assume "(k, ID) \<in> set ?Ch"
    then obtain y where y: "(k, y) \<in> set (enumerate 0 ys)" "ShouldWriteFastArrayItem y ?bc"
        "ID = ReplicationID y"
      by auto
    from y(1) have k: "k < length ys" "y = ys ! k" by (auto simp: in_set_enumerate_eq)
    from vk [of k] k len y(2) have "ShouldWriteFastArrayItem (Items A ! k) ?bc"
      by (simp add: ItemVisited_def)
    then show "k < length (Items A) \<and> ShouldWriteFastArrayItem (Items A ! k) ?bc \<and>
        ID = ReplicationID (Items ?A' ! k)"
      using k len y(3) by simp
  next
    fix k ID assume a: "k < length (Items A) \<and> ShouldWriteFastArrayItem (Items A ! k) ?bc \<and>
        ID = ReplicationID (Items ?A' ! k)"
    then have k: "k < length ys" using len by simp
    then have m: "(k, ys ! k) \<in> set (enumerate 0 ys)" by (simp add: in_set_enumerate_eq)
    from vk [of k] a have s: "ShouldWriteFastArrayItem (ys ! k) ?bc" by (simp add: ItemVisited_def)
    have ch: "ItemChanged None (ys ! k)" by (simp add: ItemChanged_def)
    have "(k, ys ! k) \<in> set (filter (\<lambda>(k, y). ShouldWriteFastArrayItem y ?bc \<and>
        ItemChanged None y) (enumerate 0 ys))"
      using m s ch by simp
    then have "(\<lambda>(k, y). (k, ReplicationID y)) (k, ys ! k) \<in> set ?Ch"
      unfolding set_map by (rule imageI)
    then have "(k, ReplicationID (ys ! k)) \<in> set ?Ch" by simp
    then show "(k, ID) \<in> set ?Ch" using a by simp
  qed
  have c1: "length (Items ?A') = length (Items A)" using len by simp
  have c3: "Parms ?A' = Parms A" by simp
  have c4: "fst ` set NM' = ReplicationID ` {y \<in> set (Items ?A'). ShouldWriteFastArrayItem y ?bc}"
    using nm by simp
  show ?thesis
    apply (rule exI [of _ ?A'], rule exI [of _ NM'], rule exI [of _ ?Ch])
    by (intro conjI res c1 c3 c2 c4)
qed

text \<open>
  C6, as stated, fails when there is no old base state: the writing branch consults
  \<^verbatim>\<open>ConditionalCreateNewDeltaState\<close> only under \<^verbatim>\<open>if (Parms.OldState)\<close>, so without an old
  state it returns true, with a new state that maps the records' ids and with a full
  delta written (array key, base key \<^verbatim>\<open>INDEX_NONE\<close>, no deletion, one changed element
  and its id). This is so for an ordinary array key (5) and also when the array key is
  \<^verbatim>\<open>INDEX_NONE\<close>, the base key the branch uses when there is no old state.
\<close>

theorem FastArrayDeltaSerialize_Write_no_old_state_counterexample:
  "FastArrayDeltaSerialize_Write
       \<lparr>MaxNumberOfAllowedChangesPerUpdate = 2048,
        MaxNumberOfAllowedDeletionsPerUpdate = 2048\<rparr>
       (\<lambda>p W. W) [] []
       \<lparr>Items = [\<lparr>ReplicationID = 4, ReplicationKey = 1,
                  MostRecentArrayReplicationKey = - 1, Payload = ()\<rparr>],
        ArraySerializer = \<lparr>ItemMap = [], IDCounter = 4, ArrayReplicationKey = - 1,
          GuidReferencesMap = [], CachedNumItems = - 1,
          CachedNumItemsToConsiderForWriting = - 1\<rparr>,
        Parms = \<lparr>bInternalAck = False, bIsWritingOnClient = False,
          bGuidListsChanged = False, bOutHasMoreUnmapped = False,
          OldState = None, NewState = None\<rparr>,
        Events = []\<rparr>
     = Some (True, [\<lparr>IDToCLMap = [(4, 1)], BaseState_ArrayReplicationKey = - 1\<rparr>],
             [- 1, - 1, 0, 1, 4], [],
       \<lparr>Items = [\<lparr>ReplicationID = 4, ReplicationKey = 1,
                  MostRecentArrayReplicationKey = - 1, Payload = ()\<rparr>],
        ArraySerializer = \<lparr>ItemMap = [], IDCounter = 4, ArrayReplicationKey = - 1,
          GuidReferencesMap = [], CachedNumItems = - 1,
          CachedNumItemsToConsiderForWriting = - 1\<rparr>,
        Parms = \<lparr>bInternalAck = False, bIsWritingOnClient = False,
          bGuidListsChanged = False, bOutHasMoreUnmapped = False,
          OldState = None, NewState = Some 0\<rparr>,
        Events = []\<rparr>) \<and>
   FastArrayDeltaSerialize_Write
       \<lparr>MaxNumberOfAllowedChangesPerUpdate = 2048,
        MaxNumberOfAllowedDeletionsPerUpdate = 2048\<rparr>
       (\<lambda>p W. W) [] []
       \<lparr>Items = [\<lparr>ReplicationID = 4, ReplicationKey = 1,
                  MostRecentArrayReplicationKey = - 1, Payload = ()\<rparr>],
        ArraySerializer = \<lparr>ItemMap = [], IDCounter = 4, ArrayReplicationKey = 5,
          GuidReferencesMap = [], CachedNumItems = - 1,
          CachedNumItemsToConsiderForWriting = - 1\<rparr>,
        Parms = \<lparr>bInternalAck = False, bIsWritingOnClient = False,
          bGuidListsChanged = False, bOutHasMoreUnmapped = False,
          OldState = None, NewState = None\<rparr>,
        Events = []\<rparr>
     = Some (True, [\<lparr>IDToCLMap = [(4, 1)], BaseState_ArrayReplicationKey = 5\<rparr>],
             [5, - 1, 0, 1, 4], [],
       \<lparr>Items = [\<lparr>ReplicationID = 4, ReplicationKey = 1,
                  MostRecentArrayReplicationKey = - 1, Payload = ()\<rparr>],
        ArraySerializer = \<lparr>ItemMap = [], IDCounter = 4, ArrayReplicationKey = 5,
          GuidReferencesMap = [], CachedNumItems = - 1,
          CachedNumItemsToConsiderForWriting = - 1\<rparr>,
        Parms = \<lparr>bInternalAck = False, bIsWritingOnClient = False,
          bGuidListsChanged = False, bOutHasMoreUnmapped = False,
          OldState = None, NewState = Some 0\<rparr>,
        Events = []\<rparr>)"
  by (simp add: FastArrayDeltaSerialize_Write_def ConditionalRebuildItemMap_def
      BuildChangedAndDeletedBuffers_def CalcNumItemsForConsideration_def
      ShouldWriteFastArrayItem_def WriteDeltaHeader_def Write_int32_def TMap_Add_def
      TMap_Find_def TMap_Num_def TMap_Contains_def INDEX_NONE_def Let_def word_sless_alt)

text \<open>
  C6, amended: when there is an old base state and its key equals the array key, the
  writing branch returns false with the writer and the store of states untouched and no
  warning; the new state is the old one itself (the same address), and the records,
  the id counter, the array key and the events are as before. When there is no old
  base state the shortcut is not taken: the branch returns true, appends a new state to
  the store (its map holds the ids of the considered records) and makes it the new
  state, and writes the header (array key, base key \<^verbatim>\<open>INDEX_NONE\<close>, no deletion, the
  number of changed elements) followed by every considered record as a changed element.
\<close>

theorem FastArrayDeltaSerialize_Write_unchanged_key:
  "(\<forall>old. OldState (Parms A) = Some old \<and> old < length States \<and>
          BaseState_ArrayReplicationKey (States ! old) = ArrayReplicationKey (ArraySerializer A) \<longrightarrow>
      (\<exists>A'. FastArrayDeltaSerialize_Write Limits enc States W A = Some (False, States, W, [], A') \<and>
             NewState (Parms A') = Some old \<and> Items A' = Items A \<and> Events A' = Events A \<and>
             IDCounter (ArraySerializer A') = IDCounter (ArraySerializer A) \<and>
             ArrayReplicationKey (ArraySerializer A') = ArrayReplicationKey (ArraySerializer A))) \<and>
   (OldState (Parms A) = None \<longrightarrow>
      (\<exists>A' NewMap Changed W' warn.
         FastArrayDeltaSerialize_Write Limits enc States W A =
           Some (True,
                 States @ [\<lparr>IDToCLMap = NewMap,
                            BaseState_ArrayReplicationKey =
                              ArrayReplicationKey (ArraySerializer A')\<rparr>],
                 W', warn, A') \<and>
         NewState (Parms A') = Some (length States) \<and>
         W' = fold (\<lambda>(idx, ID) W. enc (Payload (Items A' ! idx)) (W @ [ID])) Changed
                (W @ [ArrayReplicationKey (ArraySerializer A), INDEX_NONE, 0,
                      word_of_nat (length Changed)]) \<and>
         (\<forall>k ID. (k, ID) \<in> set Changed \<longleftrightarrow>
            k < length (Items A) \<and>
            ShouldWriteFastArrayItem (Items A ! k) (bIsWritingOnClient (Parms A)) \<and>
            ID = ReplicationID (Items A' ! k)) \<and>
         fst ` set NewMap =
           ReplicationID ` {y \<in> set (Items A').
                             ShouldWriteFastArrayItem y (bIsWritingOnClient (Parms A))}))"
proof (intro conjI allI impI)
  fix old
  assume a: "OldState (Parms A) = Some old \<and> old < length States \<and>
          BaseState_ArrayReplicationKey (States ! old) = ArrayReplicationKey (ArraySerializer A)"
  have c: "ConditionalRebuildItemMap False True A = A"
    by (simp add: ConditionalRebuildItemMap_def)
  show "\<exists>A'. FastArrayDeltaSerialize_Write Limits enc States W A = Some (False, States, W, [], A') \<and>
             NewState (Parms A') = Some old \<and> Items A' = Items A \<and> Events A' = Events A \<and>
             IDCounter (ArraySerializer A') = IDCounter (ArraySerializer A) \<and>
             ArrayReplicationKey (ArraySerializer A') = ArrayReplicationKey (ArraySerializer A)"
    using a by (simp add: FastArrayDeltaSerialize_Write_def c Let_def
        ConditionalCreateNewDeltaState_def)
next
  assume n: "OldState (Parms A) = None"
  let ?bc = "bIsWritingOnClient (Parms A)"
  let ?A2 = "A\<lparr>Parms := (Parms A)\<lparr>NewState := Some (length States)\<rparr>\<rparr>"
  have c: "ConditionalRebuildItemMap False True A = A"
    by (simp add: ConditionalRebuildItemMap_def)
  from BuildChangedAndDeletedBuffers_no_old [of ?A2]
  obtain A' NewMap Changed where
    b: "BuildChangedAndDeletedBuffers [] None [] [] ?A2 = (A', NewMap, Changed, [])"
    and l: "length (Items A') = length (Items A)"
    and p: "Parms A' = Parms ?A2"
    and ch: "\<forall>k ID. (k, ID) \<in> set Changed \<longleftrightarrow>
        k < length (Items A) \<and> ShouldWriteFastArrayItem (Items A ! k) ?bc \<and>
        ID = ReplicationID (Items A' ! k)"
    and nm: "fst ` set NewMap =
       ReplicationID ` {y \<in> set (Items A'). ShouldWriteFastArrayItem y ?bc}"
    by auto
  let ?H = "\<lparr>Header_ArrayReplicationKey = ArrayReplicationKey (ArraySerializer A),
             BaseReplicationKey = INDEX_NONE,
             NumChanged = word_of_nat (length Changed), DeletedIndices = []\<rparr>"
  let ?W1 = "W @ [ArrayReplicationKey (ArraySerializer A), INDEX_NONE, 0,
                   word_of_nat (length Changed)]"
  have w1: "fst (WriteDeltaHeader Limits ?H W) = ?W1"
    by (simp add: WriteDeltaHeader_output)
  have "\<forall>p\<in>set Changed. fst p < length (Items A')" using ch l by auto
  from WriteChangedElements_Some [OF this, of enc ?W1]
  have ws: "WriteChangedElements enc (Items A') Changed ?W1 =
      Some (fold (\<lambda>(idx, ID) W. enc (Payload (Items A' ! idx)) (W @ [ID])) Changed ?W1)" .
  define W' where "W' = fold (\<lambda>(idx, ID) W. enc (Payload (Items A' ! idx)) (W @ [ID])) Changed ?W1"
  have w': "W' = fold (\<lambda>(idx, ID) W. enc (Payload (Items A' ! idx)) (W @ [ID])) Changed ?W1"
    by (simp add: W'_def)
  obtain warn where hd: "WriteDeltaHeader Limits ?H W = (?W1, warn)"
    using w1 by (cases "WriteDeltaHeader Limits ?H W") simp
  have run: "FastArrayDeltaSerialize_Write Limits enc States W A =
      Some (True,
            States @ [\<lparr>IDToCLMap = NewMap,
                       BaseState_ArrayReplicationKey = ArrayReplicationKey (ArraySerializer A')\<rparr>],
            W', warn, A')"
    using n b hd ws by (simp add: FastArrayDeltaSerialize_Write_def c Let_def W'_def)
  have ns: "NewState (Parms A') = Some (length States)" using p by simp
  show "\<exists>A' NewMap Changed W' warn.
         FastArrayDeltaSerialize_Write Limits enc States W A =
           Some (True,
                 States @ [\<lparr>IDToCLMap = NewMap,
                            BaseState_ArrayReplicationKey =
                              ArrayReplicationKey (ArraySerializer A')\<rparr>],
                 W', warn, A') \<and>
         NewState (Parms A') = Some (length States) \<and>
         W' = fold (\<lambda>(idx, ID) W. enc (Payload (Items A' ! idx)) (W @ [ID])) Changed
                (W @ [ArrayReplicationKey (ArraySerializer A), INDEX_NONE, 0,
                      word_of_nat (length Changed)]) \<and>
         (\<forall>k ID. (k, ID) \<in> set Changed \<longleftrightarrow>
            k < length (Items A) \<and>
            ShouldWriteFastArrayItem (Items A ! k) (bIsWritingOnClient (Parms A)) \<and>
            ID = ReplicationID (Items A' ! k)) \<and>
         fst ` set NewMap =
           ReplicationID ` {y \<in> set (Items A').
                             ShouldWriteFastArrayItem y (bIsWritingOnClient (Parms A))}"
    apply (rule exI [of _ A'], rule exI [of _ NewMap], rule exI [of _ Changed],
           rule exI [of _ W'], rule exI [of _ warn])
    by (intro conjI run ns w' ch nm)
qed

theorem FastArrayDeltaSerialize_Write_unchanged_key_witness:
  "(\<exists>A'. FastArrayDeltaSerialize_Write
       \<lparr>MaxNumberOfAllowedChangesPerUpdate = 2048,
        MaxNumberOfAllowedDeletionsPerUpdate = 2048\<rparr>
       (\<lambda>p W. W)
       [\<lparr>IDToCLMap = [(4, 1)], BaseState_ArrayReplicationKey = 5\<rparr>] []
       \<lparr>Items = [\<lparr>ReplicationID = 4, ReplicationKey = 1,
                  MostRecentArrayReplicationKey = - 1, Payload = ()\<rparr>],
        ArraySerializer = \<lparr>ItemMap = [], IDCounter = 4, ArrayReplicationKey = 5,
          GuidReferencesMap = [], CachedNumItems = - 1,
          CachedNumItemsToConsiderForWriting = - 1\<rparr>,
        Parms = \<lparr>bInternalAck = False, bIsWritingOnClient = False,
          bGuidListsChanged = False, bOutHasMoreUnmapped = False,
          OldState = Some 0, NewState = None\<rparr>,
        Events = []\<rparr>
     = Some (False, [\<lparr>IDToCLMap = [(4, 1)], BaseState_ArrayReplicationKey = 5\<rparr>], [], [], A') \<and>
     NewState (Parms A') = Some 0 \<and>
     Items A' = [\<lparr>ReplicationID = 4, ReplicationKey = 1,
                  MostRecentArrayReplicationKey = - 1, Payload = ()\<rparr>]) \<and>
   (\<exists>A' NewMap Changed W' warn. FastArrayDeltaSerialize_Write
       \<lparr>MaxNumberOfAllowedChangesPerUpdate = 2048,
        MaxNumberOfAllowedDeletionsPerUpdate = 2048\<rparr>
       (\<lambda>p W. W) [] []
       \<lparr>Items = [\<lparr>ReplicationID = 4, ReplicationKey = 1,
                  MostRecentArrayReplicationKey = - 1, Payload = ()\<rparr>],
        ArraySerializer = \<lparr>ItemMap = [], IDCounter = 4, ArrayReplicationKey = 5,
          GuidReferencesMap = [], CachedNumItems = - 1,
          CachedNumItemsToConsiderForWriting = - 1\<rparr>,
        Parms = \<lparr>bInternalAck = False, bIsWritingOnClient = False,
          bGuidListsChanged = False, bOutHasMoreUnmapped = False,
          OldState = None, NewState = None\<rparr>,
        Events = []\<rparr>
     = Some (True, [\<lparr>IDToCLMap = NewMap,
                     BaseState_ArrayReplicationKey = ArrayReplicationKey (ArraySerializer A')\<rparr>],
             W', warn, A') \<and>
     NewState (Parms A') = Some 0 \<and>
     W' = fold (\<lambda>(idx, ID) W. W @ [ID]) Changed
            [5, - 1, 0, word_of_nat (length Changed)] \<and>
     set Changed = {(0 :: nat, ReplicationID (Items A' ! 0))})"
proof
  let ?A = "\<lparr>Items = [\<lparr>ReplicationID = 4, ReplicationKey = 1,
                  MostRecentArrayReplicationKey = - 1, Payload = ()\<rparr>],
        ArraySerializer = \<lparr>ItemMap = [], IDCounter = 4, ArrayReplicationKey = 5,
          GuidReferencesMap = [], CachedNumItems = - 1,
          CachedNumItemsToConsiderForWriting = - 1\<rparr>,
        Parms = \<lparr>bInternalAck = False, bIsWritingOnClient = False,
          bGuidListsChanged = False, bOutHasMoreUnmapped = False,
          OldState = Some 0, NewState = None\<rparr>,
        Events = []\<rparr>"
  let ?St = "[\<lparr>IDToCLMap = [(4, 1)], BaseState_ArrayReplicationKey = 5\<rparr>]"
  have h: "OldState (Parms ?A) = Some 0 \<and> 0 < length ?St \<and>
          BaseState_ArrayReplicationKey (?St ! 0) = ArrayReplicationKey (ArraySerializer ?A)"
    by simp
  from FastArrayDeltaSerialize_Write_unchanged_key
         [where A = ?A and States = ?St and W = "[]" and enc = "\<lambda>p W. W"
            and Limits = "\<lparr>MaxNumberOfAllowedChangesPerUpdate = 2048,
        MaxNumberOfAllowedDeletionsPerUpdate = 2048\<rparr>",
          THEN conjunct1, rule_format, OF h]
  show "\<exists>A'. FastArrayDeltaSerialize_Write
       \<lparr>MaxNumberOfAllowedChangesPerUpdate = 2048,
        MaxNumberOfAllowedDeletionsPerUpdate = 2048\<rparr>
       (\<lambda>p W. W) ?St [] ?A = Some (False, ?St, [], [], A') \<and>
     NewState (Parms A') = Some 0 \<and>
     Items A' = [\<lparr>ReplicationID = 4, ReplicationKey = 1,
                  MostRecentArrayReplicationKey = - 1, Payload = ()\<rparr>]"
    by simp blast
next
  let ?A = "\<lparr>Items = [\<lparr>ReplicationID = 4, ReplicationKey = 1,
                  MostRecentArrayReplicationKey = - 1, Payload = ()\<rparr>],
        ArraySerializer = \<lparr>ItemMap = [], IDCounter = 4, ArrayReplicationKey = 5,
          GuidReferencesMap = [], CachedNumItems = - 1,
          CachedNumItemsToConsiderForWriting = - 1\<rparr>,
        Parms = \<lparr>bInternalAck = False, bIsWritingOnClient = False,
          bGuidListsChanged = False, bOutHasMoreUnmapped = False,
          OldState = None, NewState = None\<rparr>,
        Events = []\<rparr>"
  have h: "OldState (Parms ?A) = None" by simp
  from FastArrayDeltaSerialize_Write_unchanged_key
         [where A = ?A and States = "[]" and W = "[]" and enc = "\<lambda>p W. W"
            and Limits = "\<lparr>MaxNumberOfAllowedChangesPerUpdate = 2048,
        MaxNumberOfAllowedDeletionsPerUpdate = 2048\<rparr>",
          THEN conjunct2, rule_format, OF h]
  obtain A' NewMap Changed W' warn where
    r: "FastArrayDeltaSerialize_Write
       \<lparr>MaxNumberOfAllowedChangesPerUpdate = 2048,
        MaxNumberOfAllowedDeletionsPerUpdate = 2048\<rparr>
       (\<lambda>p W. W) [] [] ?A
     = Some (True, [] @ [\<lparr>IDToCLMap = NewMap,
                     BaseState_ArrayReplicationKey = ArrayReplicationKey (ArraySerializer A')\<rparr>],
             W', warn, A')"
    and ns: "NewState (Parms A') = Some (length ([] :: FNetFastTArrayBaseState list))"
    and w: "W' = fold (\<lambda>(idx, ID) W. (\<lambda>p W. W) (Payload (Items A' ! idx)) (W @ [ID])) Changed
       ([] @ [ArrayReplicationKey (ArraySerializer ?A), INDEX_NONE, 0,
              word_of_nat (length Changed)])"
    and ch: "\<forall>k ID. (k, ID) \<in> set Changed \<longleftrightarrow>
            k < length (Items ?A) \<and>
            ShouldWriteFastArrayItem (Items ?A ! k) (bIsWritingOnClient (Parms ?A)) \<and>
            ID = ReplicationID (Items A' ! k)"
    by (elim exE conjE)
  have c: "set Changed = {(0 :: nat, ReplicationID (Items A' ! 0))}"
    using ch by (auto simp: ShouldWriteFastArrayItem_def)
  show "\<exists>A' NewMap Changed W' warn. FastArrayDeltaSerialize_Write
       \<lparr>MaxNumberOfAllowedChangesPerUpdate = 2048,
        MaxNumberOfAllowedDeletionsPerUpdate = 2048\<rparr>
       (\<lambda>p W. W) [] [] ?A
     = Some (True, [\<lparr>IDToCLMap = NewMap,
                     BaseState_ArrayReplicationKey = ArrayReplicationKey (ArraySerializer A')\<rparr>],
             W', warn, A') \<and>
     NewState (Parms A') = Some 0 \<and>
     W' = fold (\<lambda>(idx, ID) W. W @ [ID]) Changed
            [5, - 1, 0, word_of_nat (length Changed)] \<and>
     set Changed = {(0 :: nat, ReplicationID (Items A' ! 0))}"
    apply (rule exI [of _ A'], rule exI [of _ NewMap], rule exI [of _ Changed],
           rule exI [of _ W'], rule exI [of _ warn])
    using r ns w c by (simp add: INDEX_NONE_def)
qed


section \<open>Properties of receiving a delta twice\<close>

lemma TMap_Find_Add: "TMap_Find (TMap_Add k v m) k' = (if k' = k then Some v else TMap_Find m k')"
  by (simp add: TMap_Find_def TMap_Add_def update_conv')

lemma RebuildItemMap_notin:
  "ID \<notin> ReplicationID ` set xs \<Longrightarrow>
   TMap_Find (RebuildItemMap w xs i m) ID = TMap_Find m ID"
  by (induction xs arbitrary: i m) (auto simp: TMap_Find_Add)

lemma RebuildItemMap_none:
  "TMap_Find (RebuildItemMap False xs i m) INDEX_NONE = TMap_Find m INDEX_NONE"
  by (induction xs arbitrary: i m) (auto simp: TMap_Find_Add)

lemma RebuildItemMap_in:
  "distinct (map ReplicationID xs) \<Longrightarrow> j < length xs \<Longrightarrow>
   ReplicationID (xs ! j) \<noteq> INDEX_NONE \<Longrightarrow>
   TMap_Find (RebuildItemMap False xs i m) (ReplicationID (xs ! j)) = Some (i + j)"
proof (induction xs arbitrary: i m j)
  case Nil
  then show ?case by simp
next
  case (Cons x xs)
  show ?case
  proof (cases j)
    case 0
    have "ReplicationID x \<notin> ReplicationID ` set xs" using Cons.prems(1) by auto
    then show ?thesis using 0 Cons.prems(3)
      by (simp add: RebuildItemMap_notin TMap_Find_Add)
  next
    case (Suc k)
    then have k: "k < length xs" "ReplicationID (xs ! k) \<noteq> INDEX_NONE"
      using Cons.prems(2,3) by simp_all
    have d: "distinct (map ReplicationID xs)" using Cons.prems(1) by simp
    show ?thesis using Cons.IH [OF d k, of "Suc i"] Suc by simp
  qed
qed

lemma RebuildItemMap_consistent:
  assumes "distinct (map ReplicationID xs)"
  shows "ItemMapConsistent (RebuildItemMap False xs 0 []) xs"
  unfolding ItemMapConsistent_def
proof (intro conjI allI impI)
  fix ID i assume a: "TMap_Find (RebuildItemMap False xs 0 []) ID = Some i"
  have "ID \<in> ReplicationID ` set xs"
  proof (rule ccontr)
    assume "ID \<notin> ReplicationID ` set xs"
    then have "TMap_Find (RebuildItemMap False xs 0 []) ID = TMap_Find [] ID"
      by (rule RebuildItemMap_notin)
    with a show False by (simp add: TMap_Find_def)
  qed
  then obtain j where j: "j < length xs" "ReplicationID (xs ! j) = ID"
    by (auto simp: in_set_conv_nth)
  have "ID \<noteq> INDEX_NONE"
  proof
    assume "ID = INDEX_NONE"
    with a RebuildItemMap_none [of xs 0 "[]"] show False by (simp add: TMap_Find_def)
  qed
  with RebuildItemMap_in [OF assms j(1), of 0 "[]"] j(2) a have "i = j" by simp
  with j show "i < length xs" "ReplicationID (xs ! i) = ID" by simp_all
next
  fix i assume "i < length xs" "ReplicationID (xs ! i) \<noteq> INDEX_NONE"
  with RebuildItemMap_in [OF assms, of i 0 "[]"]
  show "TMap_Find (RebuildItemMap False xs 0 []) (ReplicationID (xs ! i)) = Some i" by simp
qed

lemma ItemMapConsistent_Nil: "ItemMapConsistent [] []"
  by (simp add: ItemMapConsistent_def TMap_Find_def)

lemma ConditionalRebuildItemMap_consistent:
  assumes "distinct (map ReplicationID (Items A))"
    and "TMap_Num (ItemMap (ArraySerializer A)) \<noteq> length (Items A) \<or>
         ItemMapConsistent (ItemMap (ArraySerializer A)) (Items A)"
  shows "ItemMapConsistent (ItemMap (ArraySerializer (ConditionalRebuildItemMap False False A)))
           (Items (ConditionalRebuildItemMap False False A))"
  using assms RebuildItemMap_consistent [OF assms(1)]
  by (auto simp: ConditionalRebuildItemMap_def)

lemma ReadDeletedElements_eq:
  "ReadDeletedElements n m (D, R) =
     (D @ List.map_filter (TMap_Find m) (DeletedElementIDs n R), ReaderAfterDeleted n R)"
proof (induction n arbitrary: D R)
  case 0
  show ?case by (simp add: List.map_filter_simps)
next
  case (Suc n)
  obtain c R1 where r: "Read_int32 R = (c, R1)" by (cases "Read_int32 R")
  show ?case
    using Suc [of _ R1] r
    by (cases "TMap_Find m c") (simp_all add: List.map_filter_simps)
qed

lemma TrackGuids_keeps:
  "Items (TrackGuids ID R1 R2 u d A) = Items A"
  "ItemMap (ArraySerializer (TrackGuids ID R1 R2 u d A)) = ItemMap (ArraySerializer A)"
  "bInternalAck (Parms (TrackGuids ID R1 R2 u d A)) = bInternalAck (Parms A)"
  "ArrayReplicationKey (ArraySerializer (TrackGuids ID R1 R2 u d A)) =
     ArrayReplicationKey (ArraySerializer A)"
  by (simp_all add: TrackGuids_def Let_def)

lemma ChangedRel_refl: "ChangedRel [] ark xs xs"
  by (simp add: ChangedRel_def)

lemma ChangedRel_trans:
  assumes a: "ChangedRel [c] ark xs ys" and b: "ChangedRel cs ark ys zs"
  shows "ChangedRel (c # cs) ark xs zs"
proof -
  have p1: "length xs \<le> length zs" using a b by (simp add: ChangedRel_def)
  have p2: "\<forall>i < length xs. ReplicationID (zs ! i) = ReplicationID (xs ! i) \<and>
        ReplicationKey (zs ! i) =
          ReplicationKey (xs ! i) + of_nat (count_list (c # cs) (ReplicationID (xs ! i))) \<and>
        (if ReplicationID (xs ! i) \<in> set (c # cs)
         then MostRecentArrayReplicationKey (zs ! i) = ark else zs ! i = xs ! i)"
  proof (intro allI impI)
  fix i assume i: "i < length xs"
  then have iy: "i < length ys" using a by (simp add: ChangedRel_def)
  from a i have a1: "ReplicationID (ys ! i) = ReplicationID (xs ! i)"
    and a2: "ReplicationKey (ys ! i) =
          ReplicationKey (xs ! i) + of_nat (count_list [c] (ReplicationID (xs ! i)))"
    and a3: "if ReplicationID (xs ! i) \<in> set [c]
         then MostRecentArrayReplicationKey (ys ! i) = ark else ys ! i = xs ! i"
    by (simp_all add: ChangedRel_def)
  from b iy have b1: "ReplicationID (zs ! i) = ReplicationID (ys ! i)"
    and b2: "ReplicationKey (zs ! i) =
          ReplicationKey (ys ! i) + of_nat (count_list cs (ReplicationID (ys ! i)))"
    and b3: "if ReplicationID (ys ! i) \<in> set cs
         then MostRecentArrayReplicationKey (zs ! i) = ark else zs ! i = ys ! i"
    by (simp_all add: ChangedRel_def)
  show "ReplicationID (zs ! i) = ReplicationID (xs ! i) \<and>
        ReplicationKey (zs ! i) =
          ReplicationKey (xs ! i) + of_nat (count_list (c # cs) (ReplicationID (xs ! i))) \<and>
        (if ReplicationID (xs ! i) \<in> set (c # cs)
         then MostRecentArrayReplicationKey (zs ! i) = ark else zs ! i = xs ! i)"
    using a1 a2 a3 b1 b2 b3 by (auto split: if_splits)
  qed
  have p3: "\<forall>i < length zs. length xs \<le> i \<longrightarrow>
      ReplicationID (zs ! i) \<in> set (c # cs) \<and> MostRecentArrayReplicationKey (zs ! i) = ark"
  proof (intro allI impI)
  fix i assume i: "i < length zs" "length xs \<le> i"
  show "ReplicationID (zs ! i) \<in> set (c # cs) \<and> MostRecentArrayReplicationKey (zs ! i) = ark"
  proof (cases "i < length ys")
    case True
    from a True i(2) have a1: "ReplicationID (ys ! i) \<in> set [c]"
      "MostRecentArrayReplicationKey (ys ! i) = ark" by (simp_all add: ChangedRel_def)
    from b True have b1: "ReplicationID (zs ! i) = ReplicationID (ys ! i)"
      and b3: "if ReplicationID (ys ! i) \<in> set cs
         then MostRecentArrayReplicationKey (zs ! i) = ark else zs ! i = ys ! i"
      by (simp_all add: ChangedRel_def)
    show ?thesis using a1 b1 b3 by (auto split: if_splits)
  next
    case False
    then have "length ys \<le> i" by simp
    with b i(1) show ?thesis by (simp add: ChangedRel_def)
  qed
  qed
  have p4: "set (c # cs) \<subseteq> ReplicationID ` set zs"
  proof
    fix x assume "x \<in> set (c # cs)"
    then consider "x = c" | "x \<in> set cs" by auto
    then show "x \<in> ReplicationID ` set zs"
    proof cases
      case 1
      from a have "c \<in> ReplicationID ` set ys" by (simp add: ChangedRel_def)
      then obtain j where j: "j < length ys" "ReplicationID (ys ! j) = c"
        by (auto simp: in_set_conv_nth)
      from b j(1) have "ReplicationID (zs ! j) = ReplicationID (ys ! j)" "j < length zs"
        by (simp_all add: ChangedRel_def)
      with j 1 show ?thesis by (metis image_eqI nth_mem)
    next
      case 2
      with b show ?thesis by (auto simp: ChangedRel_def)
    qed
  qed
  show ?thesis unfolding ChangedRel_def by (intro conjI p1 p2 p3 p4)
qed

lemma ReceiveChangedElement_step:
  assumes ind: "StreamIndependent dec"
    and cons: "ItemMapConsistent (ItemMap (ArraySerializer A)) (Items A)"
    and dist: "distinct (map ReplicationID (Items A))"
    and nn: "fst (Read_int32 R) \<noteq> INDEX_NONE"
    and val: "\<forall>i\<in>set C \<union> set Ad. i < length (Items A)"
  shows "\<exists>A2 C2 Ad2.
     ReceiveChangedElement dec dflt ark (R, A, C, Ad) =
        Some (fst (snd (dec q (snd (Read_int32 R)))), A2, C2, Ad2) \<and>
     ItemMapConsistent (ItemMap (ArraySerializer A2)) (Items A2) \<and>
     distinct (map ReplicationID (Items A2)) \<and>
     ChangedRel [fst (Read_int32 R)] ark (Items A) (Items A2) \<and>
     (\<forall>i\<in>set C2 \<union> set Ad2. i < length (Items A2)) \<and>
     bInternalAck (Parms A2) = bInternalAck (Parms A)"
proof -
  obtain c R1 where r: "Read_int32 R = (c, R1)" by (cases "Read_int32 R")
  then have cn: "c \<noteq> INDEX_NONE" using nn by simp
  let ?xs = "Items A"
  let ?m = "ItemMap (ArraySerializer A)"
  show ?thesis
  proof (cases "TMap_Find ?m c")
    case (Some i)
    with cons have i: "i < length ?xs" "ReplicationID (?xs ! i) = c"
      by (auto simp: ItemMapConsistent_def)
    let ?e = "(?xs ! i)\<lparr>MostRecentArrayReplicationKey := ark,
                         ReplicationKey := ReplicationKey (?xs ! i) + 1\<rparr>"
    obtain p R2 u d where dc: "dec (Payload ?e) R1 = (p, R2, u, d)"
      by (cases "dec (Payload ?e) R1") auto
    have R2: "R2 = fst (snd (dec q R1))"
      using ind dc unfolding StreamIndependent_def by (metis fst_conv snd_conv)
    let ?ys = "?xs[i := ?e\<lparr>Payload := p\<rparr>]"
    let ?A1 = "A\<lparr>Items := ?ys\<rparr>"
    let ?A2 = "if \<not> IsError R2 then TrackGuids c R1 R2 u d ?A1 else ?A1"
    have res: "ReceiveChangedElement dec dflt ark (R, A, C, Ad) = Some (R2, ?A2, C @ [i], Ad)"
      using r Some i dc by (simp add: ReceiveChangedElement_def Let_def)
    have it: "Items ?A2 = ?ys" by (simp add: TrackGuids_keeps)
    have im: "ItemMap (ArraySerializer ?A2) = ?m" by (simp add: TrackGuids_keeps)
    have pk: "bInternalAck (Parms ?A2) = bInternalAck (Parms A)" by (simp add: TrackGuids_keeps)
    have ids: "\<And>k. k < length ?xs \<Longrightarrow> ReplicationID (?ys ! k) = ReplicationID (?xs ! k)"
      using i by (simp add: nth_list_update)
    have idl: "map ReplicationID ?ys = map ReplicationID ?xs"
      using ids by (intro nth_equalityI) simp_all
    have c1: "ItemMapConsistent ?m ?ys"
      using cons ids unfolding ItemMapConsistent_def by simp
    have c2: "distinct (map ReplicationID ?ys)" using dist idl by simp
    have other: "\<And>k. k < length ?xs \<Longrightarrow> k \<noteq> i \<Longrightarrow> ReplicationID (?xs ! k) \<noteq> c"
      using dist i nth_eq_iff_index_eq [of "map ReplicationID ?xs"] by force
    have c3: "ChangedRel [c] ark ?xs ?ys"
    proof -
      have q2: "\<forall>k < length ?xs. ReplicationID (?ys ! k) = ReplicationID (?xs ! k) \<and>
        ReplicationKey (?ys ! k) =
          ReplicationKey (?xs ! k) + of_nat (count_list [c] (ReplicationID (?xs ! k))) \<and>
        (if ReplicationID (?xs ! k) \<in> set [c]
         then MostRecentArrayReplicationKey (?ys ! k) = ark else ?ys ! k = ?xs ! k)"
      proof (intro allI impI)
        fix k assume k: "k < length ?xs"
        show "ReplicationID (?ys ! k) = ReplicationID (?xs ! k) \<and>
          ReplicationKey (?ys ! k) =
            ReplicationKey (?xs ! k) + of_nat (count_list [c] (ReplicationID (?xs ! k))) \<and>
          (if ReplicationID (?xs ! k) \<in> set [c]
           then MostRecentArrayReplicationKey (?ys ! k) = ark else ?ys ! k = ?xs ! k)"
        proof (cases "k = i")
          case True
          then show ?thesis using i by simp
        next
          case False
          with other [OF k False] k show ?thesis by simp
        qed
      qed
      have q3: "\<forall>k < length ?ys. length ?xs \<le> k \<longrightarrow>
          ReplicationID (?ys ! k) \<in> set [c] \<and> MostRecentArrayReplicationKey (?ys ! k) = ark"
        by simp
      have "?ys ! i \<in> set ?ys" using i by (simp add: set_update_memI)
      moreover have "ReplicationID (?ys ! i) = c" using i by simp
      ultimately have q4: "set [c] \<subseteq> ReplicationID ` set ?ys" by force
      have q1: "length ?xs \<le> length ?ys" by simp
      show ?thesis unfolding ChangedRel_def by (intro conjI q1 q2 q3 q4)
    qed
    have c4: "\<forall>k\<in>set (C @ [i]) \<union> set Ad. k < length ?ys" using val i by auto
    show ?thesis
      apply (rule exI [of _ ?A2], rule exI [of _ "C @ [i]"], rule exI [of _ Ad])
      unfolding r fst_conv snd_conv res it im pk R2 [symmetric]
      using c1 c2 c3 c4 by simp
  next
    case None
    have notin: "c \<notin> ReplicationID ` set ?xs"
    proof
      assume "c \<in> ReplicationID ` set ?xs"
      then obtain j where j: "j < length ?xs" "ReplicationID (?xs ! j) = c"
        by (auto simp: in_set_conv_nth)
      with cons cn have "TMap_Find ?m c = Some j" by (auto simp: ItemMapConsistent_def)
      with None show False by simp
    qed
    let ?n = "length ?xs"
    let ?e = "\<lparr>ReplicationID = c, ReplicationKey = INDEX_NONE + 1,
               MostRecentArrayReplicationKey = ark, Payload = dflt\<rparr>"
    obtain p R2 u d where dc: "dec dflt R1 = (p, R2, u, d)"
      by (cases "dec dflt R1") auto
    have R2: "R2 = fst (snd (dec q R1))"
      using ind dc unfolding StreamIndependent_def by (metis fst_conv snd_conv)
    let ?ys = "?xs @ [?e\<lparr>Payload := p\<rparr>]"
    let ?m1 = "TMap_Add c ?n ?m"
    let ?A1 = "A\<lparr>Items := ?ys, ArraySerializer := (ArraySerializer A)\<lparr>ItemMap := ?m1\<rparr>\<rparr>"
    let ?A2 = "if \<not> IsError R2 then TrackGuids c R1 R2 u d ?A1 else ?A1"
    have res: "ReceiveChangedElement dec dflt ark (R, A, C, Ad) = Some (R2, ?A2, C, Ad @ [?n])"
      using r None dc by (simp add: ReceiveChangedElement_def Let_def)
    have it: "Items ?A2 = ?ys" by (simp add: TrackGuids_keeps)
    have im: "ItemMap (ArraySerializer ?A2) = ?m1" by (simp add: TrackGuids_keeps)
    have pk: "bInternalAck (Parms ?A2) = bInternalAck (Parms A)" by (simp add: TrackGuids_keeps)
    have c1: "ItemMapConsistent ?m1 ?ys"
      unfolding ItemMapConsistent_def
    proof (intro conjI [of "\<forall>ID i. _ ID i" "\<forall>i < _. _ i"] allI impI)
      fix ID k assume a: "TMap_Find ?m1 ID = Some k"
      show "k < length ?ys \<and> ReplicationID (?ys ! k) = ID"
      proof (cases "ID = c")
        case True
        with a have "k = ?n" by (simp add: TMap_Find_Add)
        then show ?thesis using True by simp
      next
        case False
        with a have "TMap_Find ?m ID = Some k" by (simp add: TMap_Find_Add)
        with cons have "k < ?n" "ReplicationID (?xs ! k) = ID"
          by (auto simp: ItemMapConsistent_def)
        then show ?thesis by (simp add: nth_append)
      qed
    next
      fix k assume k: "k < length ?ys" "ReplicationID (?ys ! k) \<noteq> INDEX_NONE"
      show "TMap_Find ?m1 (ReplicationID (?ys ! k)) = Some k"
      proof (cases "k < ?n")
        case True
        then have e: "?ys ! k = ?xs ! k" by (simp add: nth_append)
        have "ReplicationID (?xs ! k) \<noteq> c" using notin True by auto
        moreover have "TMap_Find ?m (ReplicationID (?xs ! k)) = Some k"
          using cons True k(2) e by (auto simp: ItemMapConsistent_def)
        ultimately show ?thesis using e by (simp add: TMap_Find_Add)
      next
        case False
        with k(1) have "k = ?n" by simp
        then show ?thesis by (simp add: TMap_Find_Add)
      qed
    qed
    have c2: "distinct (map ReplicationID ?ys)" using dist notin by simp
    have c3: "ChangedRel [c] ark ?xs ?ys"
    proof -
      have q1: "length ?xs \<le> length ?ys" by simp
      have q2: "\<forall>k < length ?xs. ReplicationID (?ys ! k) = ReplicationID (?xs ! k) \<and>
        ReplicationKey (?ys ! k) =
          ReplicationKey (?xs ! k) + of_nat (count_list [c] (ReplicationID (?xs ! k))) \<and>
        (if ReplicationID (?xs ! k) \<in> set [c]
         then MostRecentArrayReplicationKey (?ys ! k) = ark else ?ys ! k = ?xs ! k)"
      proof (intro allI impI)
        fix k assume k: "k < length ?xs"
        then have "ReplicationID (?xs ! k) \<noteq> c" using notin by auto
        then show "ReplicationID (?ys ! k) = ReplicationID (?xs ! k) \<and>
          ReplicationKey (?ys ! k) =
            ReplicationKey (?xs ! k) + of_nat (count_list [c] (ReplicationID (?xs ! k))) \<and>
          (if ReplicationID (?xs ! k) \<in> set [c]
           then MostRecentArrayReplicationKey (?ys ! k) = ark else ?ys ! k = ?xs ! k)"
          using k by (simp add: nth_append)
      qed
      have q3: "\<forall>k < length ?ys. length ?xs \<le> k \<longrightarrow>
          ReplicationID (?ys ! k) \<in> set [c] \<and> MostRecentArrayReplicationKey (?ys ! k) = ark"
      proof (intro allI impI)
        fix k assume "k < length ?ys" "length ?xs \<le> k"
        then have "k = ?n" by simp
        then show "ReplicationID (?ys ! k) \<in> set [c] \<and>
            MostRecentArrayReplicationKey (?ys ! k) = ark" by simp
      qed
      have q4: "set [c] \<subseteq> ReplicationID ` set ?ys" by simp
      show ?thesis unfolding ChangedRel_def by (intro conjI q1 q2 q3 q4)
    qed
    have c4: "\<forall>k\<in>set C \<union> set (Ad @ [?n]). k < length ?ys"
      using val by (auto simp: less_Suc_eq)
    show ?thesis
      apply (rule exI [of _ ?A2], rule exI [of _ C], rule exI [of _ "Ad @ [?n]"])
      unfolding r fst_conv snd_conv res it im pk R2 [symmetric]
      using c1 c2 c3 c4 by simp
  qed
qed

lemma ReadChangedElements_rel:
  assumes ind: "StreamIndependent dec"
    and cons: "ItemMapConsistent (ItemMap (ArraySerializer A)) (Items A)"
    and dist: "distinct (map ReplicationID (Items A))"
    and nn: "INDEX_NONE \<notin> set (ChangedElementIDs dec q n R)"
    and val: "\<forall>i\<in>set C \<union> set Ad. i < length (Items A)"
  shows "\<exists>A' C' Ad'.
     ReadChangedElements dec dflt ark n (R, A, C, Ad) =
        Some (fst (ChangedElementsEnd dec q n R), snd (ChangedElementsEnd dec q n R),
              A', C', Ad') \<and>
     ItemMapConsistent (ItemMap (ArraySerializer A')) (Items A') \<and>
     distinct (map ReplicationID (Items A')) \<and>
     ChangedRel (ChangedElementIDs dec q n R) ark (Items A) (Items A') \<and>
     (\<forall>i\<in>set C' \<union> set Ad'. i < length (Items A')) \<and>
     bInternalAck (Parms A') = bInternalAck (Parms A)"
  using cons dist nn val
proof (induction n arbitrary: R A C Ad)
  case 0
  then show ?case by (simp add: ChangedRel_refl)
next
  case (Suc n)
  let ?c = "fst (Read_int32 R)"
  let ?R2 = "fst (snd (dec q (snd (Read_int32 R))))"
  have cn: "?c \<noteq> INDEX_NONE" using Suc.prems(3) by auto
  from ReceiveChangedElement_step [OF ind Suc.prems(1,2) cn Suc.prems(4), of dflt ark q]
  obtain A2 C2 Ad2 where
    s: "ReceiveChangedElement dec dflt ark (R, A, C, Ad) = Some (?R2, A2, C2, Ad2)"
    and s1: "ItemMapConsistent (ItemMap (ArraySerializer A2)) (Items A2)"
    and s2: "distinct (map ReplicationID (Items A2))"
    and s3: "ChangedRel [?c] ark (Items A) (Items A2)"
    and s4: "\<forall>i\<in>set C2 \<union> set Ad2. i < length (Items A2)"
    and s5: "bInternalAck (Parms A2) = bInternalAck (Parms A)"
    by blast
  show ?case
  proof (cases "IsError ?R2")
    case True
    have "ReadChangedElements dec dflt ark (Suc n) (R, A, C, Ad) = Some (False, ?R2, A2, C2, Ad2)"
      using s True by simp
    moreover have "ChangedElementIDs dec q (Suc n) R = [?c]" using True by simp
    moreover have "ChangedElementsEnd dec q (Suc n) R = (False, ?R2)" using True by simp
    ultimately show ?thesis using s1 s2 s3 s4 s5 by simp
  next
    case False
    have ids: "ChangedElementIDs dec q (Suc n) R = ?c # ChangedElementIDs dec q n ?R2"
      using False by simp
    have en: "ChangedElementsEnd dec q (Suc n) R = ChangedElementsEnd dec q n ?R2"
      using False by simp
    have nn': "INDEX_NONE \<notin> set (ChangedElementIDs dec q n ?R2)"
      using Suc.prems(3) ids by simp
    from Suc.IH [OF s1 s2 nn' s4] obtain A' C' Ad' where
      r: "ReadChangedElements dec dflt ark n (?R2, A2, C2, Ad2) =
        Some (fst (ChangedElementsEnd dec q n ?R2), snd (ChangedElementsEnd dec q n ?R2),
              A', C', Ad')"
      and r1: "ItemMapConsistent (ItemMap (ArraySerializer A')) (Items A')"
      and r2: "distinct (map ReplicationID (Items A'))"
      and r3: "ChangedRel (ChangedElementIDs dec q n ?R2) ark (Items A2) (Items A')"
      and r4: "\<forall>i\<in>set C' \<union> set Ad'. i < length (Items A')"
      and r5: "bInternalAck (Parms A') = bInternalAck (Parms A2)"
      by blast
    have e: "ReadChangedElements dec dflt ark (Suc n) (R, A, C, Ad) =
        ReadChangedElements dec dflt ark n (?R2, A2, C2, Ad2)"
      using s False by simp
    have t: "ChangedRel (?c # ChangedElementIDs dec q n ?R2) ark (Items A) (Items A')"
      using s3 r3 by (rule ChangedRel_trans)
    show ?thesis
      apply (rule exI [of _ A'], rule exI [of _ C'], rule exI [of _ Ad'])
      unfolding e r ids en
      using r1 r2 r4 r5 s5 t by simp
  qed
qed

lemma ChangedRel_same_ids:
  assumes rel: "ChangedRel chs ark xs ys"
    and sub: "set chs \<subseteq> ReplicationID ` set xs"
    and dist: "distinct (map ReplicationID ys)"
  shows "length ys = length xs \<and> map ReplicationID ys = map ReplicationID xs"
proof -
  have le: "length xs \<le> length ys" using rel by (simp add: ChangedRel_def)
  have "\<not> length xs < length ys"
  proof
    assume lt: "length xs < length ys"
    let ?i = "length xs"
    from rel lt have "ReplicationID (ys ! ?i) \<in> set chs" by (simp add: ChangedRel_def)
    with sub have "ReplicationID (ys ! ?i) \<in> ReplicationID ` set xs" by blast
    then obtain x where x: "x \<in> set xs" "ReplicationID x = ReplicationID (ys ! ?i)" by auto
    then obtain j where j: "j < length xs" "ReplicationID (xs ! j) = ReplicationID (ys ! ?i)"
      by (metis in_set_conv_nth)
    from rel j(1) have "ReplicationID (ys ! j) = ReplicationID (xs ! j)"
      by (simp add: ChangedRel_def)
    with j have "map ReplicationID ys ! j = map ReplicationID ys ! ?i" using lt by simp
    moreover have "j < length (map ReplicationID ys)" "?i < length (map ReplicationID ys)"
      using j(1) lt by simp_all
    ultimately have "j = ?i" using nth_eq_iff_index_eq [OF dist] by blast
    with j(1) show False by simp
  qed
  with le have len: "length ys = length xs" by simp
  have "map ReplicationID ys = map ReplicationID xs"
    using len rel by (intro nth_equalityI) (simp_all add: ChangedRel_def)
  with len show ?thesis by simp
qed

lemma ImplicitDeletes_none:
  "\<forall>x\<in>set xs. \<not> (word_sless (MostRecentArrayReplicationKey x) ark \<and>
                   word_sless brk (MostRecentArrayReplicationKey x)) \<Longrightarrow>
   ImplicitDeletes ark brk xs i D = D"
  by (induction xs arbitrary: i D) auto

lemma ReadDeltaHeader_parse:
  "fst (ReadDeltaHeader Limits S Header R) \<Longrightarrow>
   ReadDeltaHeader Limits S Header R =
     (True,
      Header\<lparr>Header_ArrayReplicationKey := Delta_ArrayKey R,
             BaseReplicationKey := Delta_BaseKey R,
             NumChanged := Delta_NumChanged R,
             DeletedIndices := DeletedIndices Header
                @ List.map_filter (TMap_Find (ItemMap S)) (Delta_DeletedIDs R)\<rparr>,
      ReaderAfterDeleted (nat (sint (Delta_NumDeletes R))) (Delta_AfterHeader R))"
  by (auto simp: ReadDeltaHeader_def Let_def ReadDeletedElements_eq Delta_ArrayKey_def
      Delta_BaseKey_def Delta_NumDeletes_def Delta_NumChanged_def Delta_AfterHeader_def
      Delta_DeletedIDs_def split: prod.splits if_splits)

lemma set_map_filter: "set (List.map_filter f xs) = {y. \<exists>x\<in>set xs. f x = Some y}"
  by (induction xs) (auto simp: List.map_filter_simps split: option.splits)

lemma distinct_map_filter:
  "distinct xs \<Longrightarrow> (\<And>x y v. f x = Some v \<Longrightarrow> f y = Some v \<Longrightarrow> x = y) \<Longrightarrow>
   distinct (List.map_filter f xs)"
proof (induction xs)
  case Nil
  show ?case by (simp add: List.map_filter_simps)
next
  case (Cons a xs)
  show ?case
  proof (cases "f a")
    case None
    then show ?thesis using Cons by (simp add: List.map_filter_simps)
  next
    case (Some v)
    have "v \<notin> set (List.map_filter f xs)"
    proof
      assume "v \<in> set (List.map_filter f xs)"
      then obtain x where "x \<in> set xs" "f x = Some v" by (auto simp: set_map_filter)
      with Cons.prems(2) [OF Some, of x] Cons.prems(1) show False by auto
    qed
    then show ?thesis using Some Cons by (simp add: List.map_filter_simps)
  qed
qed

lemma map_filter_all_None:
  "\<forall>x\<in>set xs. f x = None \<Longrightarrow> List.map_filter f xs = []"
  by (induction xs) (simp_all add: List.map_filter_simps)

lemma ReadDeltaHeader_ok_indep:
  "fst (ReadDeltaHeader Limits S Header R) = fst (ReadDeltaHeader Limits S' Header' R)"
  by (auto simp: ReadDeltaHeader_def Let_def split: prod.splits)

text \<open>The reading branch, unfolded along a successful run.\<close>

lemma FastArrayDeltaSerialize_Read_unfold:
  assumes ind: "StreamIndependent dec"
    and dist0: "distinct (map ReplicationID (Items A0))"
    and cons0: "TMap_Num (ItemMap (ArraySerializer A0)) \<noteq> length (Items A0) \<or>
         ItemMapConsistent (ItemMap (ArraySerializer A0)) (Items A0)"
    and nn: "INDEX_NONE \<notin> set (Delta_ChangedIDs dec dflt R)"
    and hok: "fst (ReadDeltaHeader Limits S0 H0' R)"
    and eok: "fst (ChangedElementsEnd dec dflt (nat (sint (Delta_NumChanged R)))
         (ReaderAfterDeleted (nat (sint (Delta_NumDeletes R))) (Delta_AfterHeader R)))"
  shows "\<exists>Aa C Ad H' A1.
     FastArrayDeltaSerialize_Read Limits dec dflt R A0 =
       Some (True, snd (ChangedElementsEnd dec dflt (nat (sint (Delta_NumChanged R)))
         (ReaderAfterDeleted (nat (sint (Delta_NumDeletes R))) (Delta_AfterHeader R))), A1) \<and>
     ItemMapConsistent (ItemMap (ArraySerializer Aa)) (Items Aa) \<and>
     distinct (map ReplicationID (Items Aa)) \<and>
     ChangedRel (Delta_ChangedIDs dec dflt R) (Delta_ArrayKey R) (Items A0) (Items Aa) \<and>
     bInternalAck (Parms Aa) = bInternalAck (Parms A0) \<and>
     PostReceiveCleanup
       \<lparr>Header_ArrayReplicationKey = Delta_ArrayKey R, BaseReplicationKey = Delta_BaseKey R,
        NumChanged = Delta_NumChanged R,
        DeletedIndices = List.map_filter
          (TMap_Find (ItemMap (ArraySerializer (ConditionalRebuildItemMap False False A0))))
          (Delta_DeletedIDs R)\<rparr> C Ad Aa = Some (H', A1) \<and>
     (\<forall>i\<in>set Ad \<union> set C. i < length (Items Aa)) \<and>
     ItemMapConsistent (ItemMap (ArraySerializer (ConditionalRebuildItemMap False False A0)))
       (Items A0)"
proof -
  let ?A = "ConditionalRebuildItemMap False False A0"
  let ?Hi = "\<lparr>Header_ArrayReplicationKey = 0, BaseReplicationKey = 0, NumChanged = 0,
                DeletedIndices = []\<rparr> :: nat FFastArraySerializerHeader"
  let ?n = "nat (sint (Delta_NumChanged R))"
  let ?Re = "ReaderAfterDeleted (nat (sint (Delta_NumDeletes R))) (Delta_AfterHeader R)"
  let ?H = "\<lparr>Header_ArrayReplicationKey = Delta_ArrayKey R, BaseReplicationKey = Delta_BaseKey R,
        NumChanged = Delta_NumChanged R,
        DeletedIndices = List.map_filter (TMap_Find (ItemMap (ArraySerializer ?A)))
          (Delta_DeletedIDs R)\<rparr>"
  have itA: "Items ?A = Items A0" by (simp add: ConditionalRebuildItemMap_keeps)
  have pA: "Parms ?A = Parms A0" by (simp add: ConditionalRebuildItemMap_keeps)
  have consA: "ItemMapConsistent (ItemMap (ArraySerializer ?A)) (Items ?A)"
    using dist0 cons0 by (rule ConditionalRebuildItemMap_consistent)
  have distA: "distinct (map ReplicationID (Items ?A))" using dist0 itA by simp
  have "fst (ReadDeltaHeader Limits (ArraySerializer ?A) ?Hi R)"
    using hok ReadDeltaHeader_ok_indep [of Limits S0 H0' R "ArraySerializer ?A" ?Hi] by simp
  from ReadDeltaHeader_parse [OF this]
  have hd: "ReadDeltaHeader Limits (ArraySerializer ?A) ?Hi R = (True, ?H, ?Re)" by simp
  have nn': "INDEX_NONE \<notin> set (ChangedElementIDs dec dflt ?n ?Re)"
    using nn by (simp add: Delta_ChangedIDs_def)
  have v0: "\<forall>i\<in>set [] \<union> set []. i < length (Items ?A)" by simp
  from ReadChangedElements_rel [OF ind consA distA nn' v0, where ark = "Delta_ArrayKey R"]
  obtain Aa C Ad where
    lp: "ReadChangedElements dec dflt (Delta_ArrayKey R) ?n (?Re, ?A, [], []) =
        Some (fst (ChangedElementsEnd dec dflt ?n ?Re), snd (ChangedElementsEnd dec dflt ?n ?Re),
              Aa, C, Ad)"
    and l1: "ItemMapConsistent (ItemMap (ArraySerializer Aa)) (Items Aa)"
    and l2: "distinct (map ReplicationID (Items Aa))"
    and l3: "ChangedRel (ChangedElementIDs dec dflt ?n ?Re) (Delta_ArrayKey R) (Items ?A) (Items Aa)"
    and l4: "\<forall>i\<in>set C \<union> set Ad. i < length (Items Aa)"
    and l5: "bInternalAck (Parms Aa) = bInternalAck (Parms ?A)"
    by blast
  have l4': "\<forall>i\<in>set Ad \<union> set C. i < length (Items Aa)" using l4 by auto
  from PostReceiveCleanup_result [OF l4', of ?H] obtain H' A1 where
    pc: "PostReceiveCleanup ?H C Ad Aa = Some (H', A1)" by blast
  have run: "FastArrayDeltaSerialize_Read Limits dec dflt R A0 =
       Some (True, snd (ChangedElementsEnd dec dflt ?n ?Re), A1)"
    using hd lp eok pc by (simp add: FastArrayDeltaSerialize_Read_def Let_def)
  show ?thesis
    apply (rule exI [of _ Aa], rule exI [of _ C], rule exI [of _ Ad], rule exI [of _ H'],
        rule exI [of _ A1])
    using run l1 l2 l3 l4' l5 pc consA itA pA by (simp add: Delta_ChangedIDs_def)
qed

lemma FastArrayDeltaSerialize_Read_True:
  assumes ind: "StreamIndependent dec"
    and dist0: "distinct (map ReplicationID (Items A0))"
    and cons0: "TMap_Num (ItemMap (ArraySerializer A0)) \<noteq> length (Items A0) \<or>
         ItemMapConsistent (ItemMap (ArraySerializer A0)) (Items A0)"
    and nn: "INDEX_NONE \<notin> set (Delta_ChangedIDs dec dflt R)"
    and run: "FastArrayDeltaSerialize_Read Limits dec dflt R A0 = Some (True, R1, A1)"
  shows "fst (ReadDeltaHeader Limits S0 H0' R) \<and>
     ChangedElementsEnd dec dflt (nat (sint (Delta_NumChanged R)))
         (ReaderAfterDeleted (nat (sint (Delta_NumDeletes R))) (Delta_AfterHeader R)) = (True, R1)"
proof -
  let ?A = "ConditionalRebuildItemMap False False A0"
  let ?Hi = "\<lparr>Header_ArrayReplicationKey = 0, BaseReplicationKey = 0, NumChanged = 0,
                DeletedIndices = []\<rparr> :: nat FFastArraySerializerHeader"
  let ?n = "nat (sint (Delta_NumChanged R))"
  let ?Re = "ReaderAfterDeleted (nat (sint (Delta_NumDeletes R))) (Delta_AfterHeader R)"
  have itA: "Items ?A = Items A0" by (simp add: ConditionalRebuildItemMap_keeps)
  have consA: "ItemMapConsistent (ItemMap (ArraySerializer ?A)) (Items ?A)"
    using dist0 cons0 by (rule ConditionalRebuildItemMap_consistent)
  have distA: "distinct (map ReplicationID (Items ?A))" using dist0 itA by simp
  obtain ok H Rh where rh: "ReadDeltaHeader Limits (ArraySerializer ?A) ?Hi R = (ok, H, Rh)"
    by (cases "ReadDeltaHeader Limits (ArraySerializer ?A) ?Hi R") auto
  have ok: "ok"
  proof (rule ccontr)
    assume "\<not> ok"
    then have "FastArrayDeltaSerialize_Read Limits dec dflt R A0 = Some (False, Rh, ?A)"
      using rh by (simp add: FastArrayDeltaSerialize_Read_def Let_def)
    with run show False by simp
  qed
  then have h1: "fst (ReadDeltaHeader Limits (ArraySerializer ?A) ?Hi R)" using rh by simp
  then have h2: "fst (ReadDeltaHeader Limits S0 H0' R)"
    using ReadDeltaHeader_ok_indep [of Limits S0 H0' R "ArraySerializer ?A" ?Hi] by simp
  from ReadDeltaHeader_parse [OF h1] rh
  have H: "Header_ArrayReplicationKey H = Delta_ArrayKey R" "NumChanged H = Delta_NumChanged R"
    "Rh = ?Re" by auto
  have nn': "INDEX_NONE \<notin> set (ChangedElementIDs dec dflt ?n ?Re)"
    using nn by (simp add: Delta_ChangedIDs_def)
  have v0: "\<forall>i\<in>set [] \<union> set []. i < length (Items ?A)" by simp
  from ReadChangedElements_rel [OF ind consA distA nn' v0, where ark = "Delta_ArrayKey R"]
  obtain Aa C Ad where
    lp: "ReadChangedElements dec dflt (Delta_ArrayKey R) ?n (?Re, ?A, [], []) =
        Some (fst (ChangedElementsEnd dec dflt ?n ?Re), snd (ChangedElementsEnd dec dflt ?n ?Re),
              Aa, C, Ad)"
    by blast
  have e: "fst (ChangedElementsEnd dec dflt ?n ?Re)"
  proof (rule ccontr)
    assume "\<not> fst (ChangedElementsEnd dec dflt ?n ?Re)"
    then have "FastArrayDeltaSerialize_Read Limits dec dflt R A0 =
        Some (False, snd (ChangedElementsEnd dec dflt ?n ?Re), Aa)"
      using rh ok H lp by (simp add: FastArrayDeltaSerialize_Read_def Let_def)
    with run show False by simp
  qed
  have "R1 = snd (ChangedElementsEnd dec dflt ?n ?Re)"
    using run rh ok H lp e
    by (simp add: FastArrayDeltaSerialize_Read_def Let_def split: option.splits prod.splits)
  with e h2 show ?thesis by (simp add: prod_eq_iff)
qed

lemma ItemMapConsistent_sound:
  "ItemMapConsistent m xs \<Longrightarrow> TMap_Find m ID = Some i \<Longrightarrow>
   i < length xs \<and> ReplicationID (xs ! i) = ID"
  by (simp add: ItemMapConsistent_def)

lemma ItemMapConsistent_complete:
  "ItemMapConsistent m xs \<Longrightarrow> i < length xs \<Longrightarrow> ReplicationID (xs ! i) \<noteq> INDEX_NONE \<Longrightarrow>
   TMap_Find m (ReplicationID (xs ! i)) = Some i"
  by (simp add: ItemMapConsistent_def)

lemma FastArrayDeltaSerialize_Read_first_run:
  assumes ind: "StreamIndependent dec"
    and dist0: "distinct (map ReplicationID (Items A0))"
    and cons0: "TMap_Num (ItemMap (ArraySerializer A0)) \<noteq> length (Items A0) \<or>
         ItemMapConsistent (ItemMap (ArraySerializer A0)) (Items A0)"
    and dd: "distinct (Delta_DeletedIDs R)"
    and dj: "set (Delta_DeletedIDs R) \<inter> set (Delta_ChangedIDs dec dflt R) = {}"
    and nn: "INDEX_NONE \<notin> set (Delta_DeletedIDs R) \<union> set (Delta_ChangedIDs dec dflt R)"
    and run: "FastArrayDeltaSerialize_Read Limits dec dflt R A0 = Some (True, R1, A1)"
  shows "distinct (map ReplicationID (Items A1)) \<and>
     (TMap_Num (ItemMap (ArraySerializer A1)) \<noteq> length (Items A1) \<or>
      ItemMapConsistent (ItemMap (ArraySerializer A1)) (Items A1)) \<and>
     set (Delta_ChangedIDs dec dflt R) \<subseteq> ReplicationID ` set (Items A1) \<and>
     set (Delta_DeletedIDs R) \<inter> ReplicationID ` set (Items A1) = {} \<and>
     (\<not> bInternalAck (Parms A1) \<longrightarrow>
        (\<forall>x\<in>set (Items A1).
           \<not> (word_sless (MostRecentArrayReplicationKey x) (Delta_ArrayKey R) \<and>
              word_sless (Delta_BaseKey R) (MostRecentArrayReplicationKey x))))"
proof -
  let ?chs = "Delta_ChangedIDs dec dflt R"
  let ?dels = "Delta_DeletedIDs R"
  let ?ark = "Delta_ArrayKey R"
  let ?brk = "Delta_BaseKey R"
  let ?M = "ItemMap (ArraySerializer (ConditionalRebuildItemMap False False A0))"
  let ?D1 = "List.map_filter (TMap_Find ?M) ?dels"
  let ?H = "\<lparr>Header_ArrayReplicationKey = ?ark, BaseReplicationKey = ?brk,
        NumChanged = Delta_NumChanged R, DeletedIndices = ?D1\<rparr>"
  let ?xs = "Items A0"
  have nnc: "INDEX_NONE \<notin> set ?chs" using nn by simp
  from FastArrayDeltaSerialize_Read_True [OF ind dist0 cons0 nnc run, of "ArraySerializer A0" ?H]
  have hok: "fst (ReadDeltaHeader Limits (ArraySerializer A0) ?H R)"
    and en: "ChangedElementsEnd dec dflt (nat (sint (Delta_NumChanged R)))
         (ReaderAfterDeleted (nat (sint (Delta_NumDeletes R))) (Delta_AfterHeader R)) = (True, R1)"
    by simp_all
  have eok: "fst (ChangedElementsEnd dec dflt (nat (sint (Delta_NumChanged R)))
         (ReaderAfterDeleted (nat (sint (Delta_NumDeletes R))) (Delta_AfterHeader R)))"
    using en by simp
  from FastArrayDeltaSerialize_Read_unfold [OF ind dist0 cons0 nnc hok eok]
  obtain Aa C Ad H' A1' where
    u0: "FastArrayDeltaSerialize_Read Limits dec dflt R A0 =
       Some (True, snd (ChangedElementsEnd dec dflt (nat (sint (Delta_NumChanged R)))
         (ReaderAfterDeleted (nat (sint (Delta_NumDeletes R))) (Delta_AfterHeader R))), A1')"
    and u1: "ItemMapConsistent (ItemMap (ArraySerializer Aa)) (Items Aa)"
    and u2: "distinct (map ReplicationID (Items Aa))"
    and rel: "ChangedRel ?chs ?ark ?xs (Items Aa)"
    and u4: "bInternalAck (Parms Aa) = bInternalAck (Parms A0)"
    and pc: "PostReceiveCleanup ?H C Ad Aa = Some (H', A1')"
    and val: "\<forall>i\<in>set Ad \<union> set C. i < length (Items Aa)"
    and consM: "ItemMapConsistent ?M ?xs"
    by blast
  have A1: "A1' = A1" using u0 run by simp
  let ?ys = "Items Aa"
  let ?D = "ImplicitDeleteDetection ?H Aa"
  from PostReceiveCleanup_result [OF val, of ?H] pc A1
  have it1: "Items A1 = fst (RemoveDeletedItems (rev (sort ?D)) ?ys)"
    and im1: "ItemMap (ArraySerializer A1) = (if ?D = [] then ItemMap (ArraySerializer Aa) else [])"
    and ack1: "bInternalAck (Parms A1) = bInternalAck (Parms Aa)"
    by auto
  have lenxy: "length ?xs \<le> length ?ys" using rel by (simp add: ChangedRel_def)
  have relid: "\<And>i. i < length ?xs \<Longrightarrow> ReplicationID (?ys ! i) = ReplicationID (?xs ! i)"
    using rel by (simp add: ChangedRel_def)
  have d1: "\<forall>i\<in>set ?D1. i < length ?xs \<and> ReplicationID (?xs ! i) \<in> set ?dels"
  proof
    fix i assume "i \<in> set ?D1"
    then obtain d where d: "d \<in> set ?dels" "TMap_Find ?M d = Some i"
      by (auto simp: set_map_filter)
    from ItemMapConsistent_sound [OF consM d(2)] d(1)
    show "i < length ?xs \<and> ReplicationID (?xs ! i) \<in> set ?dels" by simp
  qed
  have d2: "distinct ?D1"
  proof (rule distinct_map_filter [OF dd])
    fix x y v assume a: "TMap_Find ?M x = Some v" "TMap_Find ?M y = Some v"
    from ItemMapConsistent_sound [OF consM a(1)] ItemMapConsistent_sound [OF consM a(2)]
    show "x = y" by simp
  qed
  have Dack: "bInternalAck (Parms Aa) \<Longrightarrow> ?D = ?D1"
    by (simp add: ImplicitDeleteDetection_def)
  have Dnack: "\<not> bInternalAck (Parms Aa) \<Longrightarrow> ?D = ImplicitDeletes ?ark ?brk ?ys 0 ?D1"
    by (simp add: ImplicitDeleteDetection_def)
  have distD: "distinct ?D"
    using d2 Dack Dnack ImplicitDeletes_distinct [OF d2, of ?ark ?brk ?ys 0]
    by (cases "bInternalAck (Parms Aa)") simp_all
  have D1sub: "set ?D1 \<subseteq> set ?D"
    using Dack Dnack by (cases "bInternalAck (Parms Aa)") (auto simp: ImplicitDeletes_set)
  have Dsub: "\<And>j. j \<in> set ?D \<Longrightarrow> j \<in> set ?D1 \<or>
        (j < length ?ys \<and> word_sless (MostRecentArrayReplicationKey (?ys ! j)) ?ark \<and>
         word_sless ?brk (MostRecentArrayReplicationKey (?ys ! j)))"
    using Dack Dnack by (cases "bInternalAck (Parms Aa)") (auto simp: ImplicitDeletes_set)
  have Drange: "\<And>j. \<not> bInternalAck (Parms Aa) \<Longrightarrow> j < length ?ys \<Longrightarrow>
        word_sless (MostRecentArrayReplicationKey (?ys ! j)) ?ark \<Longrightarrow>
        word_sless ?brk (MostRecentArrayReplicationKey (?ys ! j)) \<Longrightarrow> j \<in> set ?D"
  proof -
    fix j assume a: "\<not> bInternalAck (Parms Aa)" "j < length ?ys"
        "word_sless (MostRecentArrayReplicationKey (?ys ! j)) ?ark"
        "word_sless ?brk (MostRecentArrayReplicationKey (?ys ! j))"
    have "0 + j \<in> set (ImplicitDeletes ?ark ?brk ?ys 0 ?D1)"
      unfolding ImplicitDeletes_set using a(2,3,4) by blast
    then show "j \<in> set ?D" using Dnack [OF a(1)] by simp
  qed
  from RemoveDeletedItems_survivors [OF sorted_wrt_rev_sort, of ?D ?ys]
       strict_sorted_wrt_rev_sort [OF distD]
  obtain ks where ks: "fst (RemoveDeletedItems (rev (sort ?D)) ?ys) = map ((!) ?ys) ks"
      "distinct ks" "set ks \<subseteq> {..<length ?ys}" "set ks = {..<length ?ys} - set ?D"
    by auto
  have items1: "Items A1 = map ((!) ?ys) ks" using it1 ks(1) by simp
  have mem1: "\<And>x. x \<in> set (Items A1) \<longleftrightarrow> (\<exists>k\<in>set ks. x = ?ys ! k)"
    unfolding items1 by auto
  have kin: "\<And>k. k \<in> set ks \<longleftrightarrow> k < length ?ys \<and> k \<notin> set ?D" using ks(4) by auto
  \<comment> \<open>distinct ids\<close>
  have inj: "inj_on (\<lambda>k. ReplicationID (?ys ! k)) (set ks)"
  proof (rule inj_onI)
    fix k k' assume a: "k \<in> set ks" "k' \<in> set ks"
        "ReplicationID (?ys ! k) = ReplicationID (?ys ! k')"
    then have l: "k < length (map ReplicationID ?ys)" "k' < length (map ReplicationID ?ys)"
      using ks(3) by auto
    have "map ReplicationID ?ys ! k = map ReplicationID ?ys ! k'" using a(3) l by simp
    then show "k = k'" using nth_eq_iff_index_eq [OF u2 l] by simp
  qed
  have f1: "distinct (map ReplicationID (Items A1))"
    unfolding items1 using ks(2) inj by (simp add: distinct_map comp_def)
  \<comment> \<open>the index\<close>
  have f1b: "TMap_Num (ItemMap (ArraySerializer A1)) \<noteq> length (Items A1) \<or>
      ItemMapConsistent (ItemMap (ArraySerializer A1)) (Items A1)"
  proof (cases "?D = []")
    case True
    then have "Items A1 = ?ys" using it1 by simp
    moreover have "ItemMap (ArraySerializer A1) = ItemMap (ArraySerializer Aa)"
      using im1 True by simp
    ultimately show ?thesis using u1 by simp
  next
    case False
    then have m: "ItemMap (ArraySerializer A1) = []" using im1 by simp
    show ?thesis
    proof (cases "Items A1 = []")
      case True
      then show ?thesis using m by (simp add: ItemMapConsistent_Nil)
    next
      case False
      then show ?thesis using m by (simp add: TMap_Num_def)
    qed
  qed
  \<comment> \<open>changed ids are present\<close>
  have f2: "set ?chs \<subseteq> ReplicationID ` set (Items A1)"
  proof
    fix c assume c: "c \<in> set ?chs"
    with rel have "c \<in> ReplicationID ` set ?ys" by (auto simp: ChangedRel_def)
    then obtain j where j: "j < length ?ys" "ReplicationID (?ys ! j) = c"
      by (metis imageE in_set_conv_nth)
    have mr: "MostRecentArrayReplicationKey (?ys ! j) = ?ark"
    proof (cases "j < length ?xs")
      case True
      with relid [OF True] j(2) c rel show ?thesis by (auto simp: ChangedRel_def)
    next
      case False
      then have "length ?xs \<le> j" by simp
      with rel j(1) show ?thesis by (simp add: ChangedRel_def)
    qed
    have "j \<notin> set ?D"
    proof
      assume "j \<in> set ?D"
      from Dsub [OF this] show False
      proof
        assume jd: "j \<in> set ?D1"
        with d1 have "j < length ?xs" "ReplicationID (?xs ! j) \<in> set ?dels" by auto
        with relid [of j] j(2) have "c \<in> set ?dels" by simp
        with c dj show False by auto
      next
        assume "j < length ?ys \<and> word_sless (MostRecentArrayReplicationKey (?ys ! j)) ?ark \<and>
         word_sless ?brk (MostRecentArrayReplicationKey (?ys ! j))"
        with mr show False by simp
      qed
    qed
    with j(1) have "j \<in> set ks" using kin by simp
    then have "?ys ! j \<in> set (Items A1)" using mem1 by blast
    with j(2) show "c \<in> ReplicationID ` set (Items A1)" by force
  qed
  \<comment> \<open>deleted ids are gone\<close>
  have f3: "set ?dels \<inter> ReplicationID ` set (Items A1) = {}"
  proof (rule ccontr)
    assume "set ?dels \<inter> ReplicationID ` set (Items A1) \<noteq> {}"
    then obtain d x where d: "d \<in> set ?dels" "x \<in> set (Items A1)" "ReplicationID x = d"
      by auto
    then obtain k where k: "k \<in> set ks" "x = ?ys ! k" using mem1 by blast
    then have kl: "k < length ?ys" "k \<notin> set ?D" using kin by simp_all
    have dn: "d \<notin> set ?chs" "d \<noteq> INDEX_NONE" using d(1) dj nn by auto
    have kx: "k < length ?xs"
    proof (rule ccontr)
      assume "\<not> k < length ?xs"
      then have "length ?xs \<le> k" by simp
      with rel kl(1) have "ReplicationID (?ys ! k) \<in> set ?chs" by (simp add: ChangedRel_def)
      with k(2) d(3) dn(1) show False by simp
    qed
    have "ReplicationID (?xs ! k) = d" using relid [OF kx] k(2) d(3) by simp
    with ItemMapConsistent_complete [OF consM kx] dn(2) have "TMap_Find ?M d = Some k" by simp
    with d(1) have "k \<in> set ?D1" by (auto simp: set_map_filter)
    with D1sub kl(2) show False by auto
  qed
  \<comment> \<open>no survivor is in the key range\<close>
  have f4: "\<not> bInternalAck (Parms A1) \<longrightarrow>
        (\<forall>x\<in>set (Items A1).
           \<not> (word_sless (MostRecentArrayReplicationKey x) ?ark \<and>
              word_sless ?brk (MostRecentArrayReplicationKey x)))"
  proof (intro impI ballI notI)
    fix x assume a: "\<not> bInternalAck (Parms A1)" "x \<in> set (Items A1)"
      "word_sless (MostRecentArrayReplicationKey x) ?ark \<and>
              word_sless ?brk (MostRecentArrayReplicationKey x)"
    then obtain k where k: "k \<in> set ks" "x = ?ys ! k" using mem1 by blast
    then have kl: "k < length ?ys" "k \<notin> set ?D" using kin by simp_all
    have "\<not> bInternalAck (Parms Aa)" using a(1) ack1 by simp
    from Drange [OF this kl(1)] a(3) k(2) have "k \<in> set ?D" by simp
    with kl(2) show False by simp
  qed
  show ?thesis by (intro conjI f1 f1b f2 f3 f4)
qed

text \<open>Unfolding the reading loops at a numeral count, and a run on a concrete delta.\<close>

lemma ReadChangedElements_numeral:
  "ReadChangedElements dec dflt ark (numeral k) st =
     (case ReceiveChangedElement dec dflt ark st of
        None \<Rightarrow> None
      | Some (R2, A2, ChangedIndices1, AddedIndices1) \<Rightarrow>
          if IsError R2 then Some (False, R2, A2, ChangedIndices1, AddedIndices1)
          else ReadChangedElements dec dflt ark (pred_numeral k)
                 (R2, A2, ChangedIndices1, AddedIndices1))"
  by (simp add: numeral_eq_Suc)

lemma ReadDeletedElements_numeral:
  "ReadDeletedElements (numeral k) m (D, R) =
     (let (ElementID, R1) = Read_int32 R
      in ReadDeletedElements (pred_numeral k) m
           ((case TMap_Find m ElementID of None \<Rightarrow> D | Some DeleteIndex \<Rightarrow> D @ [DeleteIndex]),
            R1))"
  by (simp add: numeral_eq_Suc)

lemma ChangedElementIDs_numeral:
  "ChangedElementIDs dec q (numeral k) R =
     fst (Read_int32 R) #
       (if IsError (fst (snd (dec q (snd (Read_int32 R))))) then []
        else ChangedElementIDs dec q (pred_numeral k) (fst (snd (dec q (snd (Read_int32 R))))))"
  by (simp add: numeral_eq_Suc)

lemma FastArrayDeltaSerialize_Read_example_first:
  "FastArrayDeltaSerialize_Read
     \<lparr>MaxNumberOfAllowedChangesPerUpdate = 2048,
       MaxNumberOfAllowedDeletionsPerUpdate = 2048\<rparr>
     (\<lambda>p R. (p, R, {}, {})) ()
     \<lparr>Data = [9, 5, 1, 2, 4, 6, 7], IsError = False\<rparr>
     \<lparr>Items = [\<lparr>ReplicationID = 4, ReplicationKey = 1,
           MostRecentArrayReplicationKey = 5, Payload = ()\<rparr>,
         \<lparr>ReplicationID = 6, ReplicationKey = 2,
           MostRecentArrayReplicationKey = 5, Payload = ()\<rparr>,
         \<lparr>ReplicationID = 8, ReplicationKey = 5,
           MostRecentArrayReplicationKey = 5, Payload = ()\<rparr>],
      ArraySerializer = \<lparr>ItemMap = [], IDCounter = 0, ArrayReplicationKey = 3,
        GuidReferencesMap = [], CachedNumItems = - 1,
        CachedNumItemsToConsiderForWriting = - 1\<rparr>,
      Parms = \<lparr>bInternalAck = False, bIsWritingOnClient = False,
        bGuidListsChanged = False, bOutHasMoreUnmapped = False,
        OldState = None, NewState = None\<rparr>,
      Events = []\<rparr>
   = Some (True, \<lparr>Data = [], IsError = False\<rparr>,
     \<lparr>Items = [\<lparr>ReplicationID = 7, ReplicationKey = 0,
           MostRecentArrayReplicationKey = 9, Payload = ()\<rparr>,
         \<lparr>ReplicationID = 6, ReplicationKey = 3,
           MostRecentArrayReplicationKey = 9, Payload = ()\<rparr>,
         \<lparr>ReplicationID = 8, ReplicationKey = 5,
           MostRecentArrayReplicationKey = 5, Payload = ()\<rparr>],
      ArraySerializer = \<lparr>ItemMap = [], IDCounter = 0, ArrayReplicationKey = 4,
        GuidReferencesMap = [], CachedNumItems = - 1,
        CachedNumItemsToConsiderForWriting = - 1\<rparr>,
      Parms = \<lparr>bInternalAck = False, bIsWritingOnClient = False,
        bGuidListsChanged = False, bOutHasMoreUnmapped = False,
        OldState = None, NewState = None\<rparr>,
      Events = [Item_PreReplicatedRemove 0, Array_PreReplicatedRemove [0] 3,
         Item_PostReplicatedAdd 3, Array_PostReplicatedAdd [3] 3,
         Item_PostReplicatedChange 1, Array_PostReplicatedChange [1] 3,
         Items_RemoveAtSwap 0, ItemMap_Empty]\<rparr>)"
  by (simp add: ReadChangedElements_numeral ReadDeletedElements_numeral
      FastArrayDeltaSerialize_Read_def ConditionalRebuildItemMap_def ReadDeltaHeader_def
      Read_int32_def ReceiveChangedElement_def TrackGuids_def PostReceiveCleanup_def
      ImplicitDeleteDetection_def IncrementArrayReplicationKey_def TMap_Add_def TMap_Find_def
      TMap_Num_def TMap_Remove_def TMap_Contains_def word_sless_alt RemoveAtSwap_def
      INDEX_NONE_def Let_def SetError_def)

lemma FastArrayDeltaSerialize_Read_example_second:
  "FastArrayDeltaSerialize_Read
     \<lparr>MaxNumberOfAllowedChangesPerUpdate = 2048,
       MaxNumberOfAllowedDeletionsPerUpdate = 2048\<rparr>
     (\<lambda>p R. (p, R, {}, {})) ()
     \<lparr>Data = [9, 5, 1, 2, 4, 6, 7], IsError = False\<rparr>
     \<lparr>Items = [\<lparr>ReplicationID = 7, ReplicationKey = 0,
           MostRecentArrayReplicationKey = 9, Payload = ()\<rparr>,
         \<lparr>ReplicationID = 6, ReplicationKey = 3,
           MostRecentArrayReplicationKey = 9, Payload = ()\<rparr>,
         \<lparr>ReplicationID = 8, ReplicationKey = 5,
           MostRecentArrayReplicationKey = 5, Payload = ()\<rparr>],
      ArraySerializer = \<lparr>ItemMap = [], IDCounter = 0, ArrayReplicationKey = 4,
        GuidReferencesMap = [], CachedNumItems = - 1,
        CachedNumItemsToConsiderForWriting = - 1\<rparr>,
      Parms = \<lparr>bInternalAck = False, bIsWritingOnClient = False,
        bGuidListsChanged = False, bOutHasMoreUnmapped = False,
        OldState = None, NewState = None\<rparr>,
      Events = [Item_PreReplicatedRemove 0, Array_PreReplicatedRemove [0] 3,
         Item_PostReplicatedAdd 3, Array_PostReplicatedAdd [3] 3,
         Item_PostReplicatedChange 1, Array_PostReplicatedChange [1] 3,
         Items_RemoveAtSwap 0, ItemMap_Empty]\<rparr>
   = Some (True, \<lparr>Data = [], IsError = False\<rparr>,
     \<lparr>Items = [\<lparr>ReplicationID = 7, ReplicationKey = 1,
           MostRecentArrayReplicationKey = 9, Payload = ()\<rparr>,
         \<lparr>ReplicationID = 6, ReplicationKey = 4,
           MostRecentArrayReplicationKey = 9, Payload = ()\<rparr>,
         \<lparr>ReplicationID = 8, ReplicationKey = 5,
           MostRecentArrayReplicationKey = 5, Payload = ()\<rparr>],
      ArraySerializer = \<lparr>ItemMap = [(7, 0), (6, 1), (8, 2)], IDCounter = 0, ArrayReplicationKey = 5,
        GuidReferencesMap = [], CachedNumItems = - 1,
        CachedNumItemsToConsiderForWriting = - 1\<rparr>,
      Parms = \<lparr>bInternalAck = False, bIsWritingOnClient = False,
        bGuidListsChanged = False, bOutHasMoreUnmapped = False,
        OldState = None, NewState = None\<rparr>,
      Events = [Item_PreReplicatedRemove 0, Array_PreReplicatedRemove [0] 3,
         Item_PostReplicatedAdd 3, Array_PostReplicatedAdd [3] 3,
         Item_PostReplicatedChange 1, Array_PostReplicatedChange [1] 3,
         Items_RemoveAtSwap 0, ItemMap_Empty,
         Array_PreReplicatedRemove [] 3, Array_PostReplicatedAdd [] 3,
         Item_PostReplicatedChange 1, Item_PostReplicatedChange 0,
         Array_PostReplicatedChange [1, 0] 3]\<rparr>)"
  by (simp add: ReadChangedElements_numeral ReadDeletedElements_numeral
      FastArrayDeltaSerialize_Read_def ConditionalRebuildItemMap_def ReadDeltaHeader_def
      Read_int32_def ReceiveChangedElement_def TrackGuids_def PostReceiveCleanup_def
      ImplicitDeleteDetection_def IncrementArrayReplicationKey_def TMap_Add_def TMap_Find_def
      TMap_Num_def TMap_Remove_def TMap_Contains_def word_sless_alt RemoveAtSwap_def
      INDEX_NONE_def Let_def SetError_def)

text \<open>
  C3, as stated, fails for the keys: the reading branch increments the replication key
  of every record the delta names as changed, each time the delta is applied. A delta
  (array key 9, base key 5) that deletes id 4 and names ids 6 and 7 as changed, applied
  to records with ids 4, 6, 8, leaves ids 7, 6, 8 with keys 0, 3, 5; applied again to
  that result it leaves the same ids with keys 1, 4, 5.
\<close>

theorem FastArrayDeltaSerialize_Read_twice_counterexample:
  "FastArrayDeltaSerialize_Read
     \<lparr>MaxNumberOfAllowedChangesPerUpdate = 2048,
       MaxNumberOfAllowedDeletionsPerUpdate = 2048\<rparr>
     (\<lambda>p R. (p, R, {}, {})) ()
     \<lparr>Data = [9, 5, 1, 2, 4, 6, 7], IsError = False\<rparr>
     \<lparr>Items = [\<lparr>ReplicationID = 4, ReplicationKey = 1,
           MostRecentArrayReplicationKey = 5, Payload = ()\<rparr>,
         \<lparr>ReplicationID = 6, ReplicationKey = 2,
           MostRecentArrayReplicationKey = 5, Payload = ()\<rparr>,
         \<lparr>ReplicationID = 8, ReplicationKey = 5,
           MostRecentArrayReplicationKey = 5, Payload = ()\<rparr>],
      ArraySerializer = \<lparr>ItemMap = [], IDCounter = 0, ArrayReplicationKey = 3,
        GuidReferencesMap = [], CachedNumItems = - 1,
        CachedNumItemsToConsiderForWriting = - 1\<rparr>,
      Parms = \<lparr>bInternalAck = False, bIsWritingOnClient = False,
        bGuidListsChanged = False, bOutHasMoreUnmapped = False,
        OldState = None, NewState = None\<rparr>,
      Events = []\<rparr>
   = Some (True, \<lparr>Data = [], IsError = False\<rparr>,
     \<lparr>Items = [\<lparr>ReplicationID = 7, ReplicationKey = 0,
           MostRecentArrayReplicationKey = 9, Payload = ()\<rparr>,
         \<lparr>ReplicationID = 6, ReplicationKey = 3,
           MostRecentArrayReplicationKey = 9, Payload = ()\<rparr>,
         \<lparr>ReplicationID = 8, ReplicationKey = 5,
           MostRecentArrayReplicationKey = 5, Payload = ()\<rparr>],
      ArraySerializer = \<lparr>ItemMap = [], IDCounter = 0, ArrayReplicationKey = 4,
        GuidReferencesMap = [], CachedNumItems = - 1,
        CachedNumItemsToConsiderForWriting = - 1\<rparr>,
      Parms = \<lparr>bInternalAck = False, bIsWritingOnClient = False,
        bGuidListsChanged = False, bOutHasMoreUnmapped = False,
        OldState = None, NewState = None\<rparr>,
      Events = [Item_PreReplicatedRemove 0, Array_PreReplicatedRemove [0] 3,
         Item_PostReplicatedAdd 3, Array_PostReplicatedAdd [3] 3,
         Item_PostReplicatedChange 1, Array_PostReplicatedChange [1] 3,
         Items_RemoveAtSwap 0, ItemMap_Empty]\<rparr>) \<and>
   FastArrayDeltaSerialize_Read
     \<lparr>MaxNumberOfAllowedChangesPerUpdate = 2048,
       MaxNumberOfAllowedDeletionsPerUpdate = 2048\<rparr>
     (\<lambda>p R. (p, R, {}, {})) ()
     \<lparr>Data = [9, 5, 1, 2, 4, 6, 7], IsError = False\<rparr>
     \<lparr>Items = [\<lparr>ReplicationID = 7, ReplicationKey = 0,
           MostRecentArrayReplicationKey = 9, Payload = ()\<rparr>,
         \<lparr>ReplicationID = 6, ReplicationKey = 3,
           MostRecentArrayReplicationKey = 9, Payload = ()\<rparr>,
         \<lparr>ReplicationID = 8, ReplicationKey = 5,
           MostRecentArrayReplicationKey = 5, Payload = ()\<rparr>],
      ArraySerializer = \<lparr>ItemMap = [], IDCounter = 0, ArrayReplicationKey = 4,
        GuidReferencesMap = [], CachedNumItems = - 1,
        CachedNumItemsToConsiderForWriting = - 1\<rparr>,
      Parms = \<lparr>bInternalAck = False, bIsWritingOnClient = False,
        bGuidListsChanged = False, bOutHasMoreUnmapped = False,
        OldState = None, NewState = None\<rparr>,
      Events = [Item_PreReplicatedRemove 0, Array_PreReplicatedRemove [0] 3,
         Item_PostReplicatedAdd 3, Array_PostReplicatedAdd [3] 3,
         Item_PostReplicatedChange 1, Array_PostReplicatedChange [1] 3,
         Items_RemoveAtSwap 0, ItemMap_Empty]\<rparr>
   = Some (True, \<lparr>Data = [], IsError = False\<rparr>,
     \<lparr>Items = [\<lparr>ReplicationID = 7, ReplicationKey = 1,
           MostRecentArrayReplicationKey = 9, Payload = ()\<rparr>,
         \<lparr>ReplicationID = 6, ReplicationKey = 4,
           MostRecentArrayReplicationKey = 9, Payload = ()\<rparr>,
         \<lparr>ReplicationID = 8, ReplicationKey = 5,
           MostRecentArrayReplicationKey = 5, Payload = ()\<rparr>],
      ArraySerializer = \<lparr>ItemMap = [(7, 0), (6, 1), (8, 2)], IDCounter = 0, ArrayReplicationKey = 5,
        GuidReferencesMap = [], CachedNumItems = - 1,
        CachedNumItemsToConsiderForWriting = - 1\<rparr>,
      Parms = \<lparr>bInternalAck = False, bIsWritingOnClient = False,
        bGuidListsChanged = False, bOutHasMoreUnmapped = False,
        OldState = None, NewState = None\<rparr>,
      Events = [Item_PreReplicatedRemove 0, Array_PreReplicatedRemove [0] 3,
         Item_PostReplicatedAdd 3, Array_PostReplicatedAdd [3] 3,
         Item_PostReplicatedChange 1, Array_PostReplicatedChange [1] 3,
         Items_RemoveAtSwap 0, ItemMap_Empty,
         Array_PreReplicatedRemove [] 3, Array_PostReplicatedAdd [] 3,
         Item_PostReplicatedChange 1, Item_PostReplicatedChange 0,
         Array_PostReplicatedChange [1, 0] 3]\<rparr>)"
  using FastArrayDeltaSerialize_Read_example_first FastArrayDeltaSerialize_Read_example_second
  by (intro conjI)

text \<open>
  C3, amended: for a per-record decoder that consumes the stream independently of the
  record, a receiver whose records have distinct ids and whose item map is of another
  size than the array (so that it is rebuilt) or agrees with the array, and a delta
  whose deleted ids are distinct, disjoint from its changed ids, and none of them
  \<^verbatim>\<open>INDEX_NONE\<close>: when a first application of the
  delta returns true, a second application to the resulting array returns true with
  the same reader, and leaves the sequence of replication ids unchanged; the
  replication key of each record grows by the number of times its id occurs among the
  delta's changed ids, and a record whose id is not among them is unchanged.
\<close>

theorem FastArrayDeltaSerialize_Read_twice:
  assumes ind: "StreamIndependent dec"
    and dist0: "distinct (map ReplicationID (Items A0))"
    and cons0: "TMap_Num (ItemMap (ArraySerializer A0)) \<noteq> length (Items A0) \<or>
         ItemMapConsistent (ItemMap (ArraySerializer A0)) (Items A0)"
    and dd: "distinct (Delta_DeletedIDs R)"
    and dj: "set (Delta_DeletedIDs R) \<inter> set (Delta_ChangedIDs dec dflt R) = {}"
    and nn: "INDEX_NONE \<notin> set (Delta_DeletedIDs R) \<union> set (Delta_ChangedIDs dec dflt R)"
    and run: "FastArrayDeltaSerialize_Read Limits dec dflt R A0 = Some (True, R1, A1)"
  shows "\<exists>A2. FastArrayDeltaSerialize_Read Limits dec dflt R A1 = Some (True, R1, A2) \<and>
     map ReplicationID (Items A2) = map ReplicationID (Items A1) \<and>
     (\<forall>i < length (Items A1).
        ReplicationKey (Items A2 ! i) =
          ReplicationKey (Items A1 ! i)
          + of_nat (count_list (Delta_ChangedIDs dec dflt R) (ReplicationID (Items A1 ! i))) \<and>
        (ReplicationID (Items A1 ! i) \<notin> set (Delta_ChangedIDs dec dflt R)
           \<longrightarrow> Items A2 ! i = Items A1 ! i))"
proof -
  let ?chs = "Delta_ChangedIDs dec dflt R"
  let ?dels = "Delta_DeletedIDs R"
  let ?ark = "Delta_ArrayKey R"
  let ?brk = "Delta_BaseKey R"
  let ?M = "ItemMap (ArraySerializer (ConditionalRebuildItemMap False False A1))"
  let ?E = "List.map_filter (TMap_Find ?M) ?dels"
  let ?H = "\<lparr>Header_ArrayReplicationKey = ?ark, BaseReplicationKey = ?brk,
        NumChanged = Delta_NumChanged R, DeletedIndices = ?E\<rparr>"
  let ?xs = "Items A1"
  have nnc: "INDEX_NONE \<notin> set ?chs" using nn by simp
  from FastArrayDeltaSerialize_Read_first_run [OF ind dist0 cons0 dd dj nn run]
  have f1: "distinct (map ReplicationID ?xs)"
    and f1b: "TMap_Num (ItemMap (ArraySerializer A1)) \<noteq> length ?xs \<or>
      ItemMapConsistent (ItemMap (ArraySerializer A1)) ?xs"
    and f2: "set ?chs \<subseteq> ReplicationID ` set ?xs"
    and f3: "set ?dels \<inter> ReplicationID ` set ?xs = {}"
    and f4: "\<not> bInternalAck (Parms A1) \<longrightarrow>
        (\<forall>x\<in>set ?xs.
           \<not> (word_sless (MostRecentArrayReplicationKey x) ?ark \<and>
              word_sless ?brk (MostRecentArrayReplicationKey x)))"
    by blast+
  from FastArrayDeltaSerialize_Read_True [OF ind dist0 cons0 nnc run, of "ArraySerializer A1" ?H]
  have hok: "fst (ReadDeltaHeader Limits (ArraySerializer A1) ?H R)"
    and en: "ChangedElementsEnd dec dflt (nat (sint (Delta_NumChanged R)))
         (ReaderAfterDeleted (nat (sint (Delta_NumDeletes R))) (Delta_AfterHeader R)) = (True, R1)"
    by simp_all
  have eok: "fst (ChangedElementsEnd dec dflt (nat (sint (Delta_NumChanged R)))
         (ReaderAfterDeleted (nat (sint (Delta_NumDeletes R))) (Delta_AfterHeader R)))"
    using en by simp
  from FastArrayDeltaSerialize_Read_unfold [OF ind f1 f1b nnc hok eok]
  obtain Ab C Ad H' A2 where
    u0: "FastArrayDeltaSerialize_Read Limits dec dflt R A1 =
       Some (True, snd (ChangedElementsEnd dec dflt (nat (sint (Delta_NumChanged R)))
         (ReaderAfterDeleted (nat (sint (Delta_NumDeletes R))) (Delta_AfterHeader R))), A2)"
    and u2: "distinct (map ReplicationID (Items Ab))"
    and rel: "ChangedRel ?chs ?ark ?xs (Items Ab)"
    and u4: "bInternalAck (Parms Ab) = bInternalAck (Parms A1)"
    and pc: "PostReceiveCleanup ?H C Ad Ab = Some (H', A2)"
    and val: "\<forall>i\<in>set Ad \<union> set C. i < length (Items Ab)"
    and consM: "ItemMapConsistent ?M ?xs"
    by blast
  have run2: "FastArrayDeltaSerialize_Read Limits dec dflt R A1 = Some (True, R1, A2)"
    using u0 en by simp
  let ?ys = "Items Ab"
  \<comment> \<open>no deleted id is found any more\<close>
  have "\<forall>d\<in>set ?dels. TMap_Find ?M d = None"
  proof
    fix d assume d: "d \<in> set ?dels"
    show "TMap_Find ?M d = None"
    proof (cases "TMap_Find ?M d")
      case None
      then show ?thesis .
    next
      case (Some i)
      from ItemMapConsistent_sound [OF consM Some]
      have "d \<in> ReplicationID ` set ?xs" by (metis image_eqI nth_mem)
      with d f3 show ?thesis by auto
    qed
  qed
  then have E: "?E = []" by (rule map_filter_all_None)
  \<comment> \<open>every changed id is found: the array keeps its length and its ids\<close>
  from ChangedRel_same_ids [OF rel f2 u2]
  have len: "length ?ys = length ?xs" and ids: "map ReplicationID ?ys = map ReplicationID ?xs"
    by simp_all
  \<comment> \<open>nothing is deleted\<close>
  have D: "ImplicitDeleteDetection ?H Ab = []"
  proof (cases "bInternalAck (Parms Ab)")
    case True
    then show ?thesis using E by (simp add: ImplicitDeleteDetection_def)
  next
    case False
    then have na: "\<not> bInternalAck (Parms A1)" using u4 by simp
    have "\<forall>x\<in>set ?ys. \<not> (word_sless (MostRecentArrayReplicationKey x) ?ark \<and>
                   word_sless ?brk (MostRecentArrayReplicationKey x))"
    proof
      fix x assume "x \<in> set ?ys"
      then obtain i where i: "i < length ?ys" "x = ?ys ! i" by (metis in_set_conv_nth)
      then have il: "i < length ?xs" using len by simp
      show "\<not> (word_sless (MostRecentArrayReplicationKey x) ?ark \<and>
                   word_sless ?brk (MostRecentArrayReplicationKey x))"
      proof (cases "ReplicationID (?xs ! i) \<in> set ?chs")
        case True
        with rel il have "MostRecentArrayReplicationKey (?ys ! i) = ?ark"
          by (simp add: ChangedRel_def)
        then show ?thesis using i(2) by simp
      next
        case False
        with rel il have "?ys ! i = ?xs ! i" by (simp add: ChangedRel_def)
        then have "x \<in> set ?xs" using i(2) il by simp
        with f4 na show ?thesis by blast
      qed
    qed
    from ImplicitDeletes_none [OF this, of 0 "[]"] False E
    show ?thesis by (simp add: ImplicitDeleteDetection_def)
  qed
  from PostReceiveCleanup_result [OF val, of ?H] pc
  have "Items A2 = fst (RemoveDeletedItems (rev (sort (ImplicitDeleteDetection ?H Ab))) ?ys)"
    by auto
  then have it2: "Items A2 = ?ys" using D by simp
  have keys: "\<forall>i < length ?xs.
        ReplicationKey (Items A2 ! i) =
          ReplicationKey (?xs ! i) + of_nat (count_list ?chs (ReplicationID (?xs ! i))) \<and>
        (ReplicationID (?xs ! i) \<notin> set ?chs \<longrightarrow> Items A2 ! i = ?xs ! i)"
    using rel unfolding it2 by (simp add: ChangedRel_def)
  show ?thesis
    apply (rule exI [of _ A2])
    apply (intro conjI)
      apply (rule run2)
     apply (simp add: it2 ids)
    apply (rule keys)
    done
qed

theorem FastArrayDeltaSerialize_Read_twice_witness:
  "StreamIndependent (\<lambda>(p :: unit) R. (p, R, {}, {})) \<and>
   distinct (map ReplicationID
        [\<lparr>ReplicationID = 4, ReplicationKey = 1,
           MostRecentArrayReplicationKey = 5, Payload = ()\<rparr>,
         \<lparr>ReplicationID = 6, ReplicationKey = 2,
           MostRecentArrayReplicationKey = 5, Payload = ()\<rparr>,
         \<lparr>ReplicationID = 8, ReplicationKey = 5,
           MostRecentArrayReplicationKey = 5, Payload = ()\<rparr>]) \<and>
   TMap_Num ([] :: nat TMap) \<noteq> length
        [\<lparr>ReplicationID = 4, ReplicationKey = 1,
           MostRecentArrayReplicationKey = 5, Payload = ()\<rparr>,
         \<lparr>ReplicationID = 6, ReplicationKey = 2,
           MostRecentArrayReplicationKey = 5, Payload = ()\<rparr>,
         \<lparr>ReplicationID = 8, ReplicationKey = 5,
           MostRecentArrayReplicationKey = 5, Payload = ()\<rparr>] \<and>
   Delta_DeletedIDs \<lparr>Data = [9, 5, 1, 2, 4, 6, 7], IsError = False\<rparr> = [4] \<and>
   Delta_ChangedIDs (\<lambda>p R. (p, R, {}, {})) () \<lparr>Data = [9, 5, 1, 2, 4, 6, 7], IsError = False\<rparr> = [6, 7] \<and>
   FastArrayDeltaSerialize_Read
     \<lparr>MaxNumberOfAllowedChangesPerUpdate = 2048,
       MaxNumberOfAllowedDeletionsPerUpdate = 2048\<rparr>
     (\<lambda>p R. (p, R, {}, {})) ()
     \<lparr>Data = [9, 5, 1, 2, 4, 6, 7], IsError = False\<rparr>
     \<lparr>Items = [\<lparr>ReplicationID = 4, ReplicationKey = 1,
           MostRecentArrayReplicationKey = 5, Payload = ()\<rparr>,
         \<lparr>ReplicationID = 6, ReplicationKey = 2,
           MostRecentArrayReplicationKey = 5, Payload = ()\<rparr>,
         \<lparr>ReplicationID = 8, ReplicationKey = 5,
           MostRecentArrayReplicationKey = 5, Payload = ()\<rparr>],
      ArraySerializer = \<lparr>ItemMap = [], IDCounter = 0, ArrayReplicationKey = 3,
        GuidReferencesMap = [], CachedNumItems = - 1,
        CachedNumItemsToConsiderForWriting = - 1\<rparr>,
      Parms = \<lparr>bInternalAck = False, bIsWritingOnClient = False,
        bGuidListsChanged = False, bOutHasMoreUnmapped = False,
        OldState = None, NewState = None\<rparr>,
      Events = []\<rparr>
   = Some (True, \<lparr>Data = [], IsError = False\<rparr>,
     \<lparr>Items = [\<lparr>ReplicationID = 7, ReplicationKey = 0,
           MostRecentArrayReplicationKey = 9, Payload = ()\<rparr>,
         \<lparr>ReplicationID = 6, ReplicationKey = 3,
           MostRecentArrayReplicationKey = 9, Payload = ()\<rparr>,
         \<lparr>ReplicationID = 8, ReplicationKey = 5,
           MostRecentArrayReplicationKey = 5, Payload = ()\<rparr>],
      ArraySerializer = \<lparr>ItemMap = [], IDCounter = 0, ArrayReplicationKey = 4,
        GuidReferencesMap = [], CachedNumItems = - 1,
        CachedNumItemsToConsiderForWriting = - 1\<rparr>,
      Parms = \<lparr>bInternalAck = False, bIsWritingOnClient = False,
        bGuidListsChanged = False, bOutHasMoreUnmapped = False,
        OldState = None, NewState = None\<rparr>,
      Events = [Item_PreReplicatedRemove 0, Array_PreReplicatedRemove [0] 3,
         Item_PostReplicatedAdd 3, Array_PostReplicatedAdd [3] 3,
         Item_PostReplicatedChange 1, Array_PostReplicatedChange [1] 3,
         Items_RemoveAtSwap 0, ItemMap_Empty]\<rparr>) \<and>
   (\<exists>A2. FastArrayDeltaSerialize_Read
     \<lparr>MaxNumberOfAllowedChangesPerUpdate = 2048,
       MaxNumberOfAllowedDeletionsPerUpdate = 2048\<rparr>
     (\<lambda>p R. (p, R, {}, {})) ()
     \<lparr>Data = [9, 5, 1, 2, 4, 6, 7], IsError = False\<rparr>
     \<lparr>Items = [\<lparr>ReplicationID = 7, ReplicationKey = 0,
           MostRecentArrayReplicationKey = 9, Payload = ()\<rparr>,
         \<lparr>ReplicationID = 6, ReplicationKey = 3,
           MostRecentArrayReplicationKey = 9, Payload = ()\<rparr>,
         \<lparr>ReplicationID = 8, ReplicationKey = 5,
           MostRecentArrayReplicationKey = 5, Payload = ()\<rparr>],
      ArraySerializer = \<lparr>ItemMap = [], IDCounter = 0, ArrayReplicationKey = 4,
        GuidReferencesMap = [], CachedNumItems = - 1,
        CachedNumItemsToConsiderForWriting = - 1\<rparr>,
      Parms = \<lparr>bInternalAck = False, bIsWritingOnClient = False,
        bGuidListsChanged = False, bOutHasMoreUnmapped = False,
        OldState = None, NewState = None\<rparr>,
      Events = [Item_PreReplicatedRemove 0, Array_PreReplicatedRemove [0] 3,
         Item_PostReplicatedAdd 3, Array_PostReplicatedAdd [3] 3,
         Item_PostReplicatedChange 1, Array_PostReplicatedChange [1] 3,
         Items_RemoveAtSwap 0, ItemMap_Empty]\<rparr>
     = Some (True, \<lparr>Data = [], IsError = False\<rparr>, A2) \<and>
     map ReplicationID (Items A2) = [7, 6, 8] \<and>
     ReplicationKey (Items A2 ! 0) = 1 \<and>
     ReplicationKey (Items A2 ! 1) = 4 \<and>
     Items A2 ! 2 = \<lparr>ReplicationID = 8, ReplicationKey = 5,
           MostRecentArrayReplicationKey = 5, Payload = ()\<rparr>)"
proof -
  let ?dec = "(\<lambda>p R. (p, R, {}, {})) :: unit \<Rightarrow> FBitReader \<Rightarrow> unit \<times> FBitReader \<times> nat set \<times> nat set"
  let ?R = "\<lparr>Data = [9, 5, 1, 2, 4, 6, 7], IsError = False\<rparr>"
  let ?A0 = "\<lparr>Items = [\<lparr>ReplicationID = 4, ReplicationKey = 1,
           MostRecentArrayReplicationKey = 5, Payload = ()\<rparr>,
         \<lparr>ReplicationID = 6, ReplicationKey = 2,
           MostRecentArrayReplicationKey = 5, Payload = ()\<rparr>,
         \<lparr>ReplicationID = 8, ReplicationKey = 5,
           MostRecentArrayReplicationKey = 5, Payload = ()\<rparr>],
      ArraySerializer = \<lparr>ItemMap = [], IDCounter = 0, ArrayReplicationKey = 3,
        GuidReferencesMap = [], CachedNumItems = - 1,
        CachedNumItemsToConsiderForWriting = - 1\<rparr>,
      Parms = \<lparr>bInternalAck = False, bIsWritingOnClient = False,
        bGuidListsChanged = False, bOutHasMoreUnmapped = False,
        OldState = None, NewState = None\<rparr>,
      Events = []\<rparr>"
  have h1: "StreamIndependent ?dec" by (simp add: StreamIndependent_def)
  have h2: "distinct (map ReplicationID (Items ?A0))" by simp
  have h3: "TMap_Num (ItemMap (ArraySerializer ?A0)) \<noteq> length (Items ?A0) \<or>
      ItemMapConsistent (ItemMap (ArraySerializer ?A0)) (Items ?A0)"
    by (simp add: TMap_Num_def)
  have d: "Delta_DeletedIDs ?R = [4]"
    by (simp add: Delta_DeletedIDs_def Delta_NumDeletes_def Delta_AfterHeader_def Read_int32_def)
  have c: "Delta_ChangedIDs ?dec () ?R = [6, 7]"
    by (simp add: Delta_ChangedIDs_def Delta_NumChanged_def Delta_NumDeletes_def
        Delta_AfterHeader_def Read_int32_def ChangedElementIDs_numeral)
  have h4: "distinct (Delta_DeletedIDs ?R)" unfolding d by simp
  have h5: "set (Delta_DeletedIDs ?R) \<inter> set (Delta_ChangedIDs ?dec () ?R) = {}"
    unfolding d c by simp
  have h6: "INDEX_NONE \<notin> set (Delta_DeletedIDs ?R) \<union> set (Delta_ChangedIDs ?dec () ?R)"
    unfolding d c by (simp add: INDEX_NONE_def)
  let ?A1 = "\<lparr>Items = [\<lparr>ReplicationID = 7, ReplicationKey = 0,
           MostRecentArrayReplicationKey = 9, Payload = ()\<rparr>,
         \<lparr>ReplicationID = 6, ReplicationKey = 3,
           MostRecentArrayReplicationKey = 9, Payload = ()\<rparr>,
         \<lparr>ReplicationID = 8, ReplicationKey = 5,
           MostRecentArrayReplicationKey = 5, Payload = ()\<rparr>],
      ArraySerializer = \<lparr>ItemMap = [], IDCounter = 0, ArrayReplicationKey = 4,
        GuidReferencesMap = [], CachedNumItems = - 1,
        CachedNumItemsToConsiderForWriting = - 1\<rparr>,
      Parms = \<lparr>bInternalAck = False, bIsWritingOnClient = False,
        bGuidListsChanged = False, bOutHasMoreUnmapped = False,
        OldState = None, NewState = None\<rparr>,
      Events = [Item_PreReplicatedRemove 0, Array_PreReplicatedRemove [0] 3,
         Item_PostReplicatedAdd 3, Array_PostReplicatedAdd [3] 3,
         Item_PostReplicatedChange 1, Array_PostReplicatedChange [1] 3,
         Items_RemoveAtSwap 0, ItemMap_Empty]\<rparr>"
  let ?L = "\<lparr>MaxNumberOfAllowedChangesPerUpdate = 2048,
       MaxNumberOfAllowedDeletionsPerUpdate = 2048\<rparr>"
  let ?R1 = "\<lparr>Data = [], IsError = False\<rparr>"
  have run: "FastArrayDeltaSerialize_Read ?L ?dec () ?R ?A0 = Some (True, ?R1, ?A1)"
    by (rule FastArrayDeltaSerialize_Read_example_first)
  from FastArrayDeltaSerialize_Read_twice [OF h1 h2 h3 h4 h5 h6 run]
  obtain A2 where a: "FastArrayDeltaSerialize_Read ?L ?dec () ?R ?A1 = Some (True, ?R1, A2)"
    and b: "map ReplicationID (Items A2) = map ReplicationID (Items ?A1)"
    and k: "\<And>i. i < length (Items ?A1) \<Longrightarrow>
        ReplicationKey (Items A2 ! i) =
          ReplicationKey (Items ?A1 ! i)
          + of_nat (count_list (Delta_ChangedIDs ?dec () ?R) (ReplicationID (Items ?A1 ! i))) \<and>
        (ReplicationID (Items ?A1 ! i) \<notin> set (Delta_ChangedIDs ?dec () ?R)
           \<longrightarrow> Items A2 ! i = Items ?A1 ! i)"
    by blast
  have b': "map ReplicationID (Items A2) = [7, 6, 8]" using b by simp
  have k0: "ReplicationKey (Items A2 ! 0) = 1" using k [of 0] unfolding c by simp
  have k1: "ReplicationKey (Items A2 ! 1) = 4" using k [of 1] unfolding c by simp
  have k2: "Items A2 ! 2 = \<lparr>ReplicationID = 8, ReplicationKey = 5,
           MostRecentArrayReplicationKey = 5, Payload = ()\<rparr>"
    using k [of 2] unfolding c by simp
  have h2': "distinct (map ReplicationID
        [\<lparr>ReplicationID = 4, ReplicationKey = 1,
           MostRecentArrayReplicationKey = 5, Payload = ()\<rparr>,
         \<lparr>ReplicationID = 6, ReplicationKey = 2,
           MostRecentArrayReplicationKey = 5, Payload = ()\<rparr>,
         \<lparr>ReplicationID = 8, ReplicationKey = 5,
           MostRecentArrayReplicationKey = 5, Payload = ()\<rparr>])"
    by simp
  have h3': "TMap_Num ([] :: nat TMap) \<noteq> length
        [\<lparr>ReplicationID = 4, ReplicationKey = 1,
           MostRecentArrayReplicationKey = 5, Payload = ()\<rparr>,
         \<lparr>ReplicationID = 6, ReplicationKey = 2,
           MostRecentArrayReplicationKey = 5, Payload = ()\<rparr>,
         \<lparr>ReplicationID = 8, ReplicationKey = 5,
           MostRecentArrayReplicationKey = 5, Payload = ()\<rparr>]"
    by (simp add: TMap_Num_def)
  have ex: "\<exists>A2. FastArrayDeltaSerialize_Read ?L ?dec () ?R ?A1 = Some (True, ?R1, A2) \<and>
     map ReplicationID (Items A2) = [7, 6, 8] \<and>
     ReplicationKey (Items A2 ! 0) = 1 \<and>
     ReplicationKey (Items A2 ! 1) = 4 \<and>
     Items A2 ! 2 = \<lparr>ReplicationID = 8, ReplicationKey = 5,
           MostRecentArrayReplicationKey = 5, Payload = ()\<rparr>"
    by (rule exI [of _ A2]) (intro conjI a b' k0 k1 k2)
  show ?thesis
    by (intro conjI h1 h2' h3' d c run ex)
qed

section \<open>Receiving a delta that names an id twice\<close>

text \<open>
  C9 does not hold on a delta that names an id twice in its deleted block.
  \<^verbatim>\<open>ReadDeltaHeader\<close> appends one index for every id it reads, and the removal loop of
  \<^verbatim>\<open>PostReceiveCleanup\<close> swap-removes once for every index of the sorted list; the second
  removal at the same index takes the record that the first one moved there. With
  \<^verbatim>\<open>bInternalAck\<close> set, on records with the ids 1, 2, 3, 4, the deleted indices 2, 0, 2
  (a delta whose deleted block names the ids 3, 1, 3) leave the record with id 2 only:
  the record with id 4 is removed although the delta never names it.
\<close>

theorem FastArrayDeltaSerialize_Read_duplicate_delete:
  "PostReceiveCleanup
     \<lparr>Header_ArrayReplicationKey = 9, BaseReplicationKey = 5, NumChanged = 0,
      DeletedIndices = [2, 0, 2]\<rparr> [] []
     \<lparr>Items = [\<lparr>ReplicationID = 1, ReplicationKey = 1,
           MostRecentArrayReplicationKey = 5, Payload = ()\<rparr>,
         \<lparr>ReplicationID = 2, ReplicationKey = 1,
           MostRecentArrayReplicationKey = 5, Payload = ()\<rparr>,
         \<lparr>ReplicationID = 3, ReplicationKey = 1,
           MostRecentArrayReplicationKey = 5, Payload = ()\<rparr>,
         \<lparr>ReplicationID = 4, ReplicationKey = 1,
           MostRecentArrayReplicationKey = 5, Payload = ()\<rparr>],
      ArraySerializer = \<lparr>ItemMap = [(1, 0), (2, 1), (3, 2), (4, 3)], IDCounter = 0, ArrayReplicationKey = 3,
        GuidReferencesMap = [], CachedNumItems = - 1,
        CachedNumItemsToConsiderForWriting = - 1\<rparr>,
      Parms = \<lparr>bInternalAck = True, bIsWritingOnClient = False,
        bGuidListsChanged = False, bOutHasMoreUnmapped = False,
        OldState = None, NewState = None\<rparr>,
      Events = []\<rparr>
   = Some (\<lparr>Header_ArrayReplicationKey = 9, BaseReplicationKey = 5, NumChanged = 0,
            DeletedIndices = [0, 2, 2]\<rparr>,
     \<lparr>Items = [\<lparr>ReplicationID = 2, ReplicationKey = 1,
           MostRecentArrayReplicationKey = 5, Payload = ()\<rparr>],
      ArraySerializer = \<lparr>ItemMap = [], IDCounter = 0, ArrayReplicationKey = 4,
        GuidReferencesMap = [], CachedNumItems = - 1,
        CachedNumItemsToConsiderForWriting = - 1\<rparr>,
      Parms = \<lparr>bInternalAck = True, bIsWritingOnClient = False,
        bGuidListsChanged = False, bOutHasMoreUnmapped = False,
        OldState = None, NewState = None\<rparr>,
      Events = [Item_PreReplicatedRemove 2, Item_PreReplicatedRemove 0,
         Item_PreReplicatedRemove 2, Array_PreReplicatedRemove [2, 0, 2] 1,
         Array_PostReplicatedAdd [] 1, Array_PostReplicatedChange [] 1,
         Items_RemoveAtSwap 2, Items_RemoveAtSwap 2, Items_RemoveAtSwap 0,
         ItemMap_Empty]\<rparr>) \<and>
   FastArrayDeltaSerialize_Read
     \<lparr>MaxNumberOfAllowedChangesPerUpdate = 2048,
       MaxNumberOfAllowedDeletionsPerUpdate = 2048\<rparr>
     (\<lambda>p R. (p, R, {}, {})) ()
     \<lparr>Data = [9, 5, 3, 0, 3, 1, 3], IsError = False\<rparr>
     \<lparr>Items = [\<lparr>ReplicationID = 1, ReplicationKey = 1,
           MostRecentArrayReplicationKey = 5, Payload = ()\<rparr>,
         \<lparr>ReplicationID = 2, ReplicationKey = 1,
           MostRecentArrayReplicationKey = 5, Payload = ()\<rparr>,
         \<lparr>ReplicationID = 3, ReplicationKey = 1,
           MostRecentArrayReplicationKey = 5, Payload = ()\<rparr>,
         \<lparr>ReplicationID = 4, ReplicationKey = 1,
           MostRecentArrayReplicationKey = 5, Payload = ()\<rparr>],
      ArraySerializer = \<lparr>ItemMap = [], IDCounter = 0, ArrayReplicationKey = 3,
        GuidReferencesMap = [], CachedNumItems = - 1,
        CachedNumItemsToConsiderForWriting = - 1\<rparr>,
      Parms = \<lparr>bInternalAck = True, bIsWritingOnClient = False,
        bGuidListsChanged = False, bOutHasMoreUnmapped = False,
        OldState = None, NewState = None\<rparr>,
      Events = []\<rparr>
   = Some (True, \<lparr>Data = [], IsError = False\<rparr>,
     \<lparr>Items = [\<lparr>ReplicationID = 2, ReplicationKey = 1,
           MostRecentArrayReplicationKey = 5, Payload = ()\<rparr>],
      ArraySerializer = \<lparr>ItemMap = [], IDCounter = 0, ArrayReplicationKey = 4,
        GuidReferencesMap = [], CachedNumItems = - 1,
        CachedNumItemsToConsiderForWriting = - 1\<rparr>,
      Parms = \<lparr>bInternalAck = True, bIsWritingOnClient = False,
        bGuidListsChanged = False, bOutHasMoreUnmapped = False,
        OldState = None, NewState = None\<rparr>,
      Events = [Item_PreReplicatedRemove 2, Item_PreReplicatedRemove 0,
         Item_PreReplicatedRemove 2, Array_PreReplicatedRemove [2, 0, 2] 1,
         Array_PostReplicatedAdd [] 1, Array_PostReplicatedChange [] 1,
         Items_RemoveAtSwap 2, Items_RemoveAtSwap 2, Items_RemoveAtSwap 0,
         ItemMap_Empty]\<rparr>)"
  by (simp add: ReadChangedElements_numeral ReadDeletedElements_numeral
      FastArrayDeltaSerialize_Read_def ConditionalRebuildItemMap_def ReadDeltaHeader_def
      Read_int32_def ReceiveChangedElement_def TrackGuids_def PostReceiveCleanup_def
      ImplicitDeleteDetection_def IncrementArrayReplicationKey_def TMap_Add_def TMap_Find_def
      TMap_Num_def TMap_Remove_def TMap_Contains_def word_sless_alt RemoveAtSwap_def
      INDEX_NONE_def Let_def SetError_def)

end
